theory Spec2Isabelle
  imports Main "HOL-Library.Sublist" "HOL-Library.List_Lexorder"
begin

section \<open>Python strings and values\<close>

text \<open>
  A Python \<open>str\<close> is a sequence of Unicode code points, and \<open>len\<close> and slicing count code
  points; a string is therefore a list of code points (natural numbers). \<open>lit\<close> turns an
  ASCII literal into such a list.
\<close>

type_synonym ustr = "nat list"

definition lit :: "string \<Rightarrow> ustr" where
  "lit s = map of_char s"

text \<open>
  Two functions of the Python library depend on the tables of the Unicode version in use
  and are parameters of the model: \<open>str.lower\<close>, a function on whole strings (it can
  change the length, U+0130 becomes two code points, and the capital sigma depends on its
  context), and the class \<open>\d\<close> of the \<open>re\<close> module on \<open>str\<close> patterns (every decimal
  digit of Unicode). Every function that lowercases or matches digits takes them as
  \<open>L\<close>.
\<close>

record pylib =
  str_lower :: "ustr \<Rightarrow> ustr"
  re_digit :: "nat \<Rightarrow> bool"

text \<open>
  On strings of code points below U+0100 both are known exactly: \<open>str.lower\<close> adds 32 to
  the capital letters of Basic Latin and Latin-1 and leaves the other code points, and the
  only decimal digits are \<open>0\<close> to \<open>9\<close>. \<open>latin1\<close> is that instance; it stands for the
  library on inputs in this range only.
\<close>

definition lower_cp :: "nat \<Rightarrow> nat" where
  "lower_cp c = (if (65 \<le> c \<and> c \<le> 90) \<or> (192 \<le> c \<and> c \<le> 214) \<or> (216 \<le> c \<and> c \<le> 222)
                 then c + 32 else c)"

definition latin1 :: pylib where
  "latin1 = \<lparr>str_lower = map lower_cp, re_digit = (\<lambda>c. 48 \<le> c \<and> c \<le> 57)\<rparr>"

text \<open>
  A string that is made of code points of a lowercased string and of spaces is not changed
  by \<open>str.lower\<close>: no code point that \<open>str.lower\<close> produces has a lowercase mapping of its
  own. This holds of Python's function and is what idempotence of the title normalization
  needs of it.
\<close>

definition lower_stable :: "pylib \<Rightarrow> bool" where
  "lower_stable L = (\<forall>t s. set s \<subseteq> insert 32 (set (str_lower L t)) \<longrightarrow> str_lower L s = s)"

text \<open>The whitespace of \<open>str.split\<close> and \<open>str.strip\<close>: the code points for which
  \<open>str.isspace\<close> holds.\<close>

definition is_space :: "nat \<Rightarrow> bool" where
  "is_space c = ((9 \<le> c \<and> c \<le> 13) \<or> (28 \<le> c \<and> c \<le> 32) \<or> c = 133 \<or> c = 160 \<or> c = 5760
                 \<or> (8192 \<le> c \<and> c \<le> 8202) \<or> c = 8232 \<or> c = 8233 \<or> c = 8239 \<or> c = 8287
                 \<or> c = 12288)"

text \<open>\<open>s.split()\<close>: the maximal runs of non-whitespace, in order; \<open>w\<close> is the run being read.\<close>

fun split_acc :: "ustr \<Rightarrow> ustr \<Rightarrow> ustr list" where
  "split_acc w [] = (if w = [] then [] else [w])"
| "split_acc w (c # cs) =
     (if is_space c then (if w = [] then split_acc [] cs else w # split_acc [] cs)
      else split_acc (w @ [c]) cs)"

definition split_ws :: "ustr \<Rightarrow> ustr list" where
  "split_ws s = split_acc [] s"

text \<open>\<open>" ".join(ws)\<close>\<close>

fun join_sp :: "ustr list \<Rightarrow> ustr" where
  "join_sp [] = []"
| "join_sp [w] = w"
| "join_sp (w # v # ws) = w @ 32 # join_sp (v # ws)"

text \<open>
  \<open>s.replace(old, new)\<close>: the occurrences of \<open>old\<close> are found from the left and do not
  overlap. With an empty \<open>old\<close> Python puts \<open>new\<close> before every character and at the end.
\<close>

function replace :: "ustr \<Rightarrow> ustr \<Rightarrow> ustr \<Rightarrow> ustr" where
  "replace old new [] = (if old = [] then new else [])"
| "replace old new (c # cs) =
     (if old = [] then new @ c # replace old new cs
      else if take (length old) (c # cs) = old
           then new @ replace old new (drop (length old) (c # cs))
           else c # replace old new cs)"
  by pat_completeness auto
termination
  by (relation "measure (\<lambda>(old, new, s). length s)") auto

definition strip :: "ustr \<Rightarrow> ustr" where
  "strip s = rev (dropWhile is_space (rev (dropWhile is_space s)))"

text \<open>
  The values a field of a paper record can hold: the JSON scalars and a list of strings
  (the \<open>authors\<close> field). A paper record is a Python \<open>dict\<close> from field names to such
  values, kept as an association list in insertion order.
\<close>

datatype val = JNull | JBool bool | JNum int | JStr ustr | JStrs "ustr list"

type_synonym pdict = "(ustr \<times> val) list"

fun truthy :: "val \<Rightarrow> bool" where
  "truthy JNull = False"
| "truthy (JBool b) = b"
| "truthy (JNum n) = (n \<noteq> 0)"
| "truthy (JStr s) = (s \<noteq> [])"
| "truthy (JStrs xs) = (xs \<noteq> [])"

text \<open>\<open>d.get(k, default)\<close>\<close>

definition get_or :: "pdict \<Rightarrow> string \<Rightarrow> val \<Rightarrow> val" where
  "get_or d k dflt = (case map_of d (lit k) of None \<Rightarrow> dflt | Some v \<Rightarrow> v)"

datatype error = AttributeError | KeyError | TypeError

definition rbind :: "error + 'a \<Rightarrow> ('a \<Rightarrow> error + 'b) \<Rightarrow> error + 'b" where
  "rbind m f = (case m of Inl e \<Rightarrow> Inl e | Inr x \<Rightarrow> f x)"

text \<open>\<open>v.lower()\<close> exists on strings only.\<close>

fun py_lower :: "pylib \<Rightarrow> val \<Rightarrow> error + ustr" where
  "py_lower L (JStr s) = Inr (str_lower L s)"
| "py_lower L _ = Inl AttributeError"

section \<open>Canonical keys (analyze\_citations.py)\<close>

text \<open>
  The pattern of \<open>re.search(r"10\.48550/arxiv\.(\d+\.\d+)", doi_lower)\<close>. Both \<open>\d+\<close> are
  greedy and the dot is not a digit, so a match at a position takes the two maximal runs of
  digits. \<open>match_arxiv_at L\<close> matches at the start of its argument and returns group 1;
  \<open>re_search_arxiv L\<close> tries the positions from the left.
\<close>

definition match_arxiv_at :: "pylib \<Rightarrow> ustr \<Rightarrow> ustr option" where
  "match_arxiv_at L s =
     (let pre = lit ''10.48550/arxiv.'' in
      if take (length pre) s = pre then
        (let r = drop (length pre) s;
             d1 = takeWhile (re_digit L) r in
         if d1 = [] then None
         else (case dropWhile (re_digit L) r of
                 [] \<Rightarrow> None
               | c # r2 \<Rightarrow>
                   (let d2 = takeWhile (re_digit L) r2 in
                    if c = 46 \<and> d2 \<noteq> [] then Some (d1 @ 46 # d2) else None)))
      else None)"

fun re_search_arxiv :: "pylib \<Rightarrow> ustr \<Rightarrow> ustr option" where
  "re_search_arxiv L [] = None"
| "re_search_arxiv L (c # cs) =
     (case match_arxiv_at L (c # cs) of Some g \<Rightarrow> Some g | None \<Rightarrow> re_search_arxiv L cs)"

definition extract_arxiv_id_from_doi :: "pylib \<Rightarrow> val \<Rightarrow> error + ustr option" where
  "extract_arxiv_id_from_doi L doi =
     (if \<not> truthy doi then Inr None
      else rbind (py_lower L doi) (\<lambda>doi_lower. Inr (re_search_arxiv L doi_lower)))"

text \<open>
  The characters replaced by a space, as the list stands in the source: the colon, the
  hyphen, two sequences of three code points (U+00E2 U+20AC U+201C and U+00E2 U+20AC
  U+201D), the apostrophe twice and the double quote three times.
\<close>

definition punctuation :: "ustr list" where
  "punctuation = [[58], [45], [226, 8364, 8220], [226, 8364, 8221], [39], [39], [34], [34], [34]]"

definition normalize_title :: "pylib \<Rightarrow> ustr \<Rightarrow> ustr" where
  "normalize_title L title =
     (if title = [] then []
      else (let normalized = join_sp (split_ws (str_lower L title));
                normalized = foldl (\<lambda>s char. replace char [32] s) normalized punctuation;
                normalized = join_sp (split_ws normalized)
            in take 150 (strip normalized)))"

text \<open>A key or \<open>None\<close> is false as a condition when it is \<open>None\<close> or the empty string.\<close>

fun key_truthy :: "ustr option \<Rightarrow> bool" where
  "key_truthy None = False"
| "key_truthy (Some s) = (s \<noteq> [])"

text \<open>\<open>normalize_title(title)\<close> on a value: \<open>title.lower()\<close> is the first thing it does to a
  true value.\<close>

definition normalize_title_val :: "pylib \<Rightarrow> val \<Rightarrow> error + ustr" where
  "normalize_title_val L title =
     (if \<not> truthy title then Inr [] else rbind (py_lower L title) (\<lambda>_. case title of JStr t \<Rightarrow> Inr (normalize_title L t) | _ \<Rightarrow> Inl AttributeError))"

definition get_paper_key :: "pylib \<Rightarrow> pdict \<Rightarrow> error + ustr option" where
  "get_paper_key L paper =
     (let title = get_or paper ''title'' (JStr []) in
      rbind (if truthy title then normalize_title_val L title else Inr []) (\<lambda>normalized.
      if truthy title \<and> normalized \<noteq> [] then Inr (Some (lit ''title:'' @ normalized))
      else
        (let doi = get_or paper ''doi'' (JStr []);
             arxiv_id = get_or paper ''arxiv_id'' (JStr []) in
         rbind (extract_arxiv_id_from_doi L doi) (\<lambda>arxiv_from_doi.
         if key_truthy arxiv_from_doi then Inr (Some (lit ''arxiv:'' @ the arxiv_from_doi))
         else if truthy arxiv_id then
           rbind (py_lower L arxiv_id) (\<lambda>a. Inr (Some (lit ''arxiv:'' @ a)))
         else if truthy doi then
           rbind (py_lower L doi) (\<lambda>d. Inr (Some (lit ''doi:'' @ d)))
         else if truthy (get_or paper ''openalex_id'' JNull) then
           rbind (py_lower L (get_or paper ''openalex_id'' JNull)) (\<lambda>x. Inr (Some (lit ''openalex:'' @ x)))
         else if truthy (get_or paper ''s2_id'' JNull) then
           rbind (py_lower L (get_or paper ''s2_id'' JNull)) (\<lambda>x. Inr (Some (lit ''s2:'' @ x)))
         else Inr None))))"

section \<open>Canonical keys (visualize\_citations.py)\<close>

definition viz_get_paper_key :: "pylib \<Rightarrow> pdict \<Rightarrow> error + ustr option" where
  "viz_get_paper_key L paper =
     (if truthy (get_or paper ''doi'' JNull) then
        rbind (py_lower L (get_or paper ''doi'' JNull)) (\<lambda>x. Inr (Some (lit ''doi:'' @ x)))
      else if truthy (get_or paper ''arxiv_id'' JNull) then
        rbind (py_lower L (get_or paper ''arxiv_id'' JNull)) (\<lambda>x. Inr (Some (lit ''arxiv:'' @ x)))
      else if truthy (get_or paper ''openalex_id'' JNull) then
        rbind (py_lower L (get_or paper ''openalex_id'' JNull)) (\<lambda>x. Inr (Some (lit ''openalex:'' @ x)))
      else if truthy (get_or paper ''s2_id'' JNull) then
        rbind (py_lower L (get_or paper ''s2_id'' JNull)) (\<lambda>x. Inr (Some (lit ''s2:'' @ x)))
      else if truthy (get_or paper ''title'' JNull) then
        rbind (py_lower L (get_or paper ''title'' JNull)) (\<lambda>x. Inr (Some (lit ''title:'' @ take 100 x)))
      else Inr None)"

section \<open>The priority order of the key namespaces, as a table\<close>

text \<open>
  A field is well-typed when it is missing, false as a condition (\<open>null\<close>, \<open>""\<close>, \<open>0\<close>,
  \<open>false\<close>, \<open>[]\<close>) or a string. \<open>str_field\<close> reads a field as a string, empty when the
  field is missing or false.
\<close>

definition str_or_falsy :: "val \<Rightarrow> bool" where
  "str_or_falsy v = (case v of JStr s \<Rightarrow> True | _ \<Rightarrow> \<not> truthy v)"

definition fields_ok :: "pdict \<Rightarrow> bool" where
  "fields_ok p = list_all (\<lambda>k. str_or_falsy (get_or p k JNull))
                   [''title'', ''doi'', ''arxiv_id'', ''openalex_id'', ''s2_id'']"

definition str_field :: "pdict \<Rightarrow> string \<Rightarrow> ustr" where
  "str_field p k = (case get_or p k JNull of JStr s \<Rightarrow> s | _ \<Rightarrow> [])"

text \<open>
  A namespace is satisfied when it has a candidate; the key is the prefix of the first
  satisfied namespace followed by its candidate, and a later namespace is looked at only
  when all earlier ones are not satisfied.
\<close>

definition nonempty :: "ustr \<Rightarrow> ustr option" where
  "nonempty s = (if s = [] then None else Some s)"

fun first_satisfied :: "(string \<times> ustr option) list \<Rightarrow> ustr option" where
  "first_satisfied [] = None"
| "first_satisfied ((ns, None) # rest) = first_satisfied rest"
| "first_satisfied ((ns, Some v) # rest) = Some (lit ns @ v)"

text \<open>
  The order of the specification: the normalized title when it is not empty, the arXiv id
  found in the lowercased DOI, the lowercased arXiv id, DOI, OpenAlex id and Semantic
  Scholar id when the field is not empty.
\<close>

definition spec_namespaces :: "pylib \<Rightarrow> pdict \<Rightarrow> (string \<times> ustr option) list" where
  "spec_namespaces L p =
     [(''title:'', nonempty (normalize_title L (str_field p ''title''))),
      (''arxiv:'', Option.bind (nonempty (str_field p ''doi'')) (\<lambda>d. re_search_arxiv L (str_lower L d))),
      (''arxiv:'', map_option (str_lower L) (nonempty (str_field p ''arxiv_id''))),
      (''doi:'', map_option (str_lower L) (nonempty (str_field p ''doi''))),
      (''openalex:'', map_option (str_lower L) (nonempty (str_field p ''openalex_id''))),
      (''s2:'', map_option (str_lower L) (nonempty (str_field p ''s2_id'')))]"

text \<open>The order of \<open>get_paper_key\<close> in visualize\_citations.py; the title is lowercased and cut
  to 100 characters.\<close>

definition viz_namespaces :: "pylib \<Rightarrow> pdict \<Rightarrow> (string \<times> ustr option) list" where
  "viz_namespaces L p =
     [(''doi:'', map_option (str_lower L) (nonempty (str_field p ''doi''))),
      (''arxiv:'', map_option (str_lower L) (nonempty (str_field p ''arxiv_id''))),
      (''openalex:'', map_option (str_lower L) (nonempty (str_field p ''openalex_id''))),
      (''s2:'', map_option (str_lower L) (nonempty (str_field p ''s2_id''))),
      (''title:'', map_option (\<lambda>s. take 100 (str_lower L s)) (nonempty (str_field p ''title'')))]"

section \<open>What \<open>get_paper_key\<close> inspects\<close>

text \<open>
  A field is bad when it holds a true value that is not a string: \<open>.lower()\<close> raises on it.
  Each namespace reads one field, in the order of \<open>inspected\<close> (the DOI is read twice, for
  the arXiv id inside it and for itself). Looking at a namespace raises when its field is
  bad, gives a key when the namespace is satisfied, and otherwise passes to the next one.
\<close>

definition bad :: "val \<Rightarrow> bool" where
  "bad v = (truthy v \<and> (case v of JStr s \<Rightarrow> False | _ \<Rightarrow> True))"

datatype probe = PRaise | PKey ustr | PNext

definition inspected :: "string list" where
  "inspected = [''title'', ''doi'', ''arxiv_id'', ''doi'', ''openalex_id'', ''s2_id'']"

definition probe_of :: "pdict \<Rightarrow> string \<Rightarrow> string \<times> ustr option \<Rightarrow> probe" where
  "probe_of p field ns =
     (if bad (get_or p field JNull) then PRaise
      else (case snd ns of None \<Rightarrow> PNext | Some v \<Rightarrow> PKey (lit (fst ns) @ v)))"

definition probes :: "pylib \<Rightarrow> pdict \<Rightarrow> probe list" where
  "probes L p = map2 (probe_of p) inspected (spec_namespaces L p)"

fun first_probe :: "probe list \<Rightarrow> error + ustr option" where
  "first_probe [] = Inr None"
| "first_probe (PRaise # rest) = Inl AttributeError"
| "first_probe (PKey k # rest) = Inr (Some k)"
| "first_probe (PNext # rest) = first_probe rest"

section \<open>Words\<close>

text \<open>A word is a non-empty string without whitespace, as \<open>str.split\<close> produces them.\<close>

definition word_ok :: "ustr \<Rightarrow> bool" where
  "word_ok w = (w \<noteq> [] \<and> (\<forall>c\<in>set w. \<not> is_space c))"

section \<open>The input document\<close>

text \<open>
  The document is \<open>{"papers": [...]}\<close>; an entry of \<open>papers\<close> has an \<open>input_doi\<close>
  (\<open>None\<close> when the key is missing), a \<open>metadata\<close> record (\<open>None\<close> when it is missing or
  \<open>null\<close>), and the lists \<open>references\<close> and \<open>cited_by\<close> (empty when missing).
\<close>

record entry =
  input_doi :: "val option"
  metadata :: "pdict option"
  references :: "pdict list"
  cited_by :: "pdict list"

text \<open>\<open>paper.get("metadata")\<close> as a condition: \<open>None\<close> and the empty dict are false.\<close>

fun meta_truthy :: "pdict option \<Rightarrow> bool" where
  "meta_truthy None = False"
| "meta_truthy (Some m) = (m \<noteq> [])"

text \<open>\<open>d[k] = v\<close> on a dict in insertion order: a present key keeps its place.\<close>

fun dict_set :: "'k \<Rightarrow> 'v \<Rightarrow> ('k \<times> 'v) list \<Rightarrow> ('k \<times> 'v) list" where
  "dict_set k v [] = [(k, v)]"
| "dict_set k v ((k', v') # d) = (if k' = k then (k, v) # d else (k', v') # dict_set k v d)"

fun foldM :: "('a \<Rightarrow> 's \<Rightarrow> error + 's) \<Rightarrow> 'a list \<Rightarrow> 's \<Rightarrow> error + 's" where
  "foldM f [] s = Inr s"
| "foldM f (x # xs) s = rbind (f x s) (foldM f xs)"

section \<open>analyze\_citations.py\<close>

text \<open>\<open>len(v)\<close> exists on strings and lists.\<close>

fun py_len :: "val \<Rightarrow> error + nat" where
  "py_len (JStr s) = Inr (length s)"
| "py_len (JStrs xs) = Inr (length xs)"
| "py_len _ = Inl TypeError"

text \<open>\<open>title[:57] + "..."\<close>: a list cannot be added to a string.\<close>

fun py_ellipsis :: "val \<Rightarrow> error + val" where
  "py_ellipsis (JStr s) = Inr (JStr (take 57 s @ lit ''...''))"
| "py_ellipsis _ = Inl TypeError"

definition get_seed_paper_label :: "entry \<Rightarrow> error + val" where
  "get_seed_paper_label paper =
     (let md = (if meta_truthy (metadata paper) then the (metadata paper) else []);
          title = get_or md ''title'' (JStr (lit ''Unknown''));
          title = (if truthy title then title else JStr (lit ''Unknown''))
      in rbind (py_len title) (\<lambda>n. if n > 60 then py_ellipsis title else Inr title))"

record seed_info =
  s_doi :: val
  s_title :: val
  s_authors :: val
  s_year :: val

definition seed_step :: "pylib \<Rightarrow> entry \<Rightarrow> ustr set \<times> (ustr \<times> seed_info) list \<Rightarrow> error + ustr set \<times> (ustr \<times> seed_info) list" where
  "seed_step L paper st =
     (case st of (seed_keys, seed_by_key) \<Rightarrow>
      (case metadata paper of
         None \<Rightarrow> Inr st
       | Some md \<Rightarrow>
           if md = [] then Inr st
           else rbind (get_paper_key L md) (\<lambda>key.
             if key_truthy key then
               (case input_doi paper of
                  None \<Rightarrow> Inl KeyError
                | Some d \<Rightarrow>
                    Inr (insert (the key) seed_keys,
                         dict_set (the key)
                           \<lparr>s_doi = d, s_title = get_or md ''title'' (JStr []),
                            s_authors = get_or md ''authors'' (JStrs []),
                            s_year = get_or md ''year'' JNull\<rparr> seed_by_key))
             else Inr st)))"

text \<open>An occurrence \<open>{"doi": seed_doi, "title": seed_label}\<close>.\<close>

record seed_ref =
  r_doi :: val
  r_title :: val

type_synonym rindex = "(ustr \<times> (pdict option \<times> seed_ref list)) list"

text \<open>
  The body of the inner loop on a resolved key: reading \<open>index[key]\<close> of the
  \<open>defaultdict\<close> gives \<open>(None, [])\<close> for a new key, the metadata is stored when it is
  \<open>None\<close>, and the occurrence is appended.
\<close>

definition index_add :: "ustr \<Rightarrow> pdict \<Rightarrow> seed_ref \<Rightarrow> rindex \<Rightarrow> rindex" where
  "index_add k ref occ idx =
     (case (case map_of idx k of None \<Rightarrow> (None, []) | Some e \<Rightarrow> e) of
        (m, occs) \<Rightarrow> dict_set k (if m = None then Some ref else m, occs @ [occ]) idx)"

definition index_ref :: "pylib \<Rightarrow> seed_ref \<Rightarrow> pdict \<Rightarrow> rindex \<Rightarrow> error + rindex" where
  "index_ref L occ ref idx =
     rbind (get_paper_key L ref) (\<lambda>ref_key.
       if \<not> key_truthy ref_key then Inr idx else Inr (index_add (the ref_key) ref occ idx))"

text \<open>
  The source has the loop twice, over \<open>references\<close> for \<open>references_index\<close> and over
  \<open>cited_by\<close> for \<open>citing_index\<close>; \<open>rel\<close> is the list that is read.
\<close>

definition index_paper :: "pylib \<Rightarrow> (entry \<Rightarrow> pdict list) \<Rightarrow> entry \<Rightarrow> rindex \<Rightarrow> error + rindex" where
  "index_paper L rel paper idx =
     (if \<not> meta_truthy (metadata paper) then Inr idx
      else rbind (get_seed_paper_label paper) (\<lambda>seed_label.
        let seed_doi = (case input_doi paper of None \<Rightarrow> JStr [] | Some d \<Rightarrow> d)
        in foldM (index_ref L \<lparr>r_doi = seed_doi, r_title = seed_label\<rparr>) (rel paper) idx))"

text \<open>An entry of a result list; \<open>e_count\<close> is \<open>c_in\<close> or \<open>c_out\<close> and \<open>e_seed_papers\<close> is
  \<open>cited_by_seed_papers\<close> or \<open>cites_seed_papers\<close>.\<close>

record agg_entry =
  e_key :: ustr
  e_doi :: val
  e_arxiv_id :: val
  e_title :: val
  e_authors :: val
  e_year :: val
  e_venue :: val
  e_count :: nat
  e_seed_papers :: "seed_ref list"
  is_in_seed_set :: bool

definition filter_step :: "ustr set \<Rightarrow> int \<Rightarrow> ustr \<times> (pdict option \<times> seed_ref list) \<Rightarrow> agg_entry list \<Rightarrow> error + agg_entry list" where
  "filter_step seed_keys k item acc =
     (case item of (ref_key, (md, occs)) \<Rightarrow>
        if ref_key \<in> seed_keys then Inr acc
        else if int (length occs) \<ge> k then
          (case md of
             None \<Rightarrow> Inl AttributeError
           | Some md' \<Rightarrow>
               Inr (acc @ [\<lparr>e_key = ref_key,
                            e_doi = get_or md' ''doi'' (JStr []),
                            e_arxiv_id = get_or md' ''arxiv_id'' (JStr []),
                            e_title = get_or md' ''title'' (JStr []),
                            e_authors = get_or md' ''authors'' (JStrs []),
                            e_year = get_or md' ''year'' JNull,
                            e_venue = get_or md' ''venue'' (JStr []),
                            e_count = length occs,
                            e_seed_papers = occs,
                            is_in_seed_set = (ref_key \<in> seed_keys)\<rparr>]))
        else Inr acc)"

text \<open>
  Python's \<open>==\<close> and \<open><\<close> on field values: booleans are the numbers 0 and 1, strings and
  lists are ordered lexicographically, and any other pair is not ordered.
\<close>

fun num_of :: "val \<Rightarrow> int option" where
  "num_of (JBool b) = Some (if b then 1 else 0)"
| "num_of (JNum n) = Some n"
| "num_of _ = None"

definition py_eq :: "val \<Rightarrow> val \<Rightarrow> bool" where
  "py_eq a b = (case (num_of a, num_of b) of (Some m, Some n) \<Rightarrow> m = n | _ \<Rightarrow> a = b)"

fun py_lt :: "val \<Rightarrow> val \<Rightarrow> error + bool" where
  "py_lt (JStr a) (JStr b) = Inr (a < b)"
| "py_lt (JStrs a) (JStrs b) = Inr (a < b)"
| "py_lt a b = (case (num_of a, num_of b) of (Some m, Some n) \<Rightarrow> Inr (m < n) | _ \<Rightarrow> Inl TypeError)"

text \<open>The sort key \<open>(-x["c_in"], x["title"])\<close> and the order of such tuples.\<close>

definition sort_key :: "agg_entry \<Rightarrow> int \<times> val" where
  "sort_key x = (- int (e_count x), e_title x)"

definition key_lt :: "int \<times> val \<Rightarrow> int \<times> val \<Rightarrow> error + bool" where
  "key_lt a b =
     (if fst a \<noteq> fst b then Inr (fst a < fst b)
      else if py_eq (snd a) (snd b) then Inr False
      else py_lt (snd a) (snd b))"

text \<open>
  \<open>list.sort(key=...)\<close> is stable and uses \<open><\<close> only. It is modelled as a stable insertion
  sort; which pairs CPython compares, and so whether an unordered pair of titles raises,
  is not modelled beyond that.
\<close>

fun py_insort :: "agg_entry \<Rightarrow> agg_entry list \<Rightarrow> error + agg_entry list" where
  "py_insort x [] = Inr [x]"
| "py_insort x (y # ys) =
     rbind (key_lt (sort_key y) (sort_key x)) (\<lambda>b.
       if b then rbind (py_insort x ys) (\<lambda>r. Inr (y # r)) else Inr (x # y # ys))"

fun py_sort :: "agg_entry list \<Rightarrow> error + agg_entry list" where
  "py_sort [] = Inr []"
| "py_sort (x # xs) = rbind (py_sort xs) (py_insort x)"

definition analyze_citations :: "pylib \<Rightarrow> entry list \<Rightarrow> int \<Rightarrow> int \<Rightarrow> error + agg_entry list \<times> agg_entry list" where
  "analyze_citations L papers k_cited k_citing =
     rbind (foldM (seed_step L) papers ({}, [])) (\<lambda>(seed_keys, seed_by_key).
     rbind (foldM (index_paper L references) papers []) (\<lambda>references_index.
     rbind (foldM (filter_step seed_keys k_cited) references_index []) (\<lambda>cited_papers.
     rbind (py_sort cited_papers) (\<lambda>cited_papers.
     rbind (foldM (index_paper L cited_by) papers []) (\<lambda>citing_index.
     rbind (foldM (filter_step seed_keys k_citing) citing_index []) (\<lambda>citing_papers.
     rbind (py_sort citing_papers) (\<lambda>citing_papers.
     Inr (cited_papers, citing_papers))))))))"

section \<open>visualize\_citations.py\<close>

text \<open>A node of the graph; a seed node has a \<open>doi\<close> and no count, the others a count and no
  \<open>doi\<close>.\<close>

record node =
  n_key :: ustr
  n_doi :: "val option"
  n_title :: val
  n_authors :: val
  n_year :: val
  n_venue :: val
  n_count :: "nat option"

definition viz_seed_step :: "pylib \<Rightarrow> entry \<Rightarrow> (ustr \<times> node) list \<Rightarrow> error + (ustr \<times> node) list" where
  "viz_seed_step L paper seed_papers =
     (case metadata paper of
        None \<Rightarrow> Inr seed_papers
      | Some md \<Rightarrow>
          if md = [] then Inr seed_papers
          else rbind (viz_get_paper_key L md) (\<lambda>key.
            if key_truthy key then
              (case input_doi paper of
                 None \<Rightarrow> Inl KeyError
               | Some d \<Rightarrow>
                   Inr (dict_set (the key)
                          \<lparr>n_key = the key, n_doi = Some d,
                           n_title = get_or md ''title'' (JStr (lit ''Unknown'')),
                           n_authors = get_or md ''authors'' (JStrs []),
                           n_year = get_or md ''year'' JNull,
                           n_venue = get_or md ''venue'' (JStr []),
                           n_count = None\<rparr> seed_papers))
            else Inr seed_papers))"

type_synonym vindex = "(ustr \<times> (pdict option \<times> ustr set)) list"

type_synonym edge = "ustr \<times> ustr \<times> ustr"

definition viz_index_add :: "ustr \<Rightarrow> pdict \<Rightarrow> ustr \<Rightarrow> vindex \<Rightarrow> vindex" where
  "viz_index_add k ref seed_key idx =
     (case (case map_of idx k of None \<Rightarrow> (None, {}) | Some e \<Rightarrow> e) of
        (m, seeds) \<Rightarrow> dict_set k (if m = None then Some ref else m, insert seed_key seeds) idx)"

text \<open>The state of the main loop: \<open>references_index\<close>, \<open>citing_index\<close> and \<open>edges\<close>.\<close>

definition viz_ref_step :: "pylib \<Rightarrow> ustr \<Rightarrow> pdict \<Rightarrow> vindex \<times> vindex \<times> edge list \<Rightarrow> error + vindex \<times> vindex \<times> edge list" where
  "viz_ref_step L seed_key ref st =
     (case st of (references_index, citing_index, edges) \<Rightarrow>
        rbind (viz_get_paper_key L ref) (\<lambda>ref_key.
          if \<not> key_truthy ref_key then Inr st
          else Inr (viz_index_add (the ref_key) ref seed_key references_index, citing_index,
                    edges @ [(seed_key, the ref_key, lit ''cites'')])))"

definition viz_citing_step :: "pylib \<Rightarrow> ustr \<Rightarrow> pdict \<Rightarrow> vindex \<times> vindex \<times> edge list \<Rightarrow> error + vindex \<times> vindex \<times> edge list" where
  "viz_citing_step L seed_key citing st =
     (case st of (references_index, citing_index, edges) \<Rightarrow>
        rbind (viz_get_paper_key L citing) (\<lambda>citing_key.
          if \<not> key_truthy citing_key then Inr st
          else Inr (references_index, viz_index_add (the citing_key) citing seed_key citing_index,
                    edges @ [(the citing_key, seed_key, lit ''cites'')])))"

definition viz_paper_step :: "pylib \<Rightarrow> entry \<Rightarrow> vindex \<times> vindex \<times> edge list \<Rightarrow> error + vindex \<times> vindex \<times> edge list" where
  "viz_paper_step L paper st =
     rbind (if meta_truthy (metadata paper) then viz_get_paper_key L (the (metadata paper)) else Inr None)
       (\<lambda>seed_key.
          if \<not> key_truthy seed_key then Inr st
          else rbind (foldM (viz_ref_step L (the seed_key)) (references paper) st)
                 (foldM (viz_citing_step L (the seed_key)) (cited_by paper)))"

definition viz_filter_step :: "(ustr \<times> node) list \<Rightarrow> int \<Rightarrow> ustr \<times> (pdict option \<times> ustr set) \<Rightarrow> (ustr \<times> node) list \<Rightarrow> error + (ustr \<times> node) list" where
  "viz_filter_step seed_papers k item acc =
     (case item of (ref_key, (md, seeds)) \<Rightarrow>
        if int (card seeds) \<ge> k \<and> ref_key \<notin> fst ` set seed_papers then
          (case md of
             None \<Rightarrow> Inl AttributeError
           | Some md' \<Rightarrow>
               Inr (dict_set ref_key
                      \<lparr>n_key = ref_key, n_doi = None,
                       n_title = get_or md' ''title'' (JStr (lit ''Unknown'')),
                       n_authors = get_or md' ''authors'' (JStrs []),
                       n_year = get_or md' ''year'' JNull,
                       n_venue = get_or md' ''venue'' (JStr []),
                       n_count = Some (card seeds)\<rparr> acc))
        else Inr acc)"

record graph =
  g_seed_papers :: "(ustr \<times> node) list"
  g_cited_papers :: "(ustr \<times> node) list"
  g_citing_papers :: "(ustr \<times> node) list"
  g_edges :: "edge list"

text \<open>\<open>list(set(filtered_edges))\<close> keeps one copy of each triple, in an order Python does not
  fix; the model keeps the order of \<open>remdups\<close>.\<close>

definition analyze_for_graph :: "pylib \<Rightarrow> entry list \<Rightarrow> int \<Rightarrow> int \<Rightarrow> error + graph" where
  "analyze_for_graph L papers k_cited k_citing =
     rbind (foldM (viz_seed_step L) papers []) (\<lambda>seed_papers.
     rbind (foldM (viz_paper_step L) papers ([], [], [])) (\<lambda>(references_index, citing_index, edges).
     rbind (foldM (viz_filter_step seed_papers k_cited) references_index []) (\<lambda>cited_papers.
     rbind (foldM (viz_filter_step seed_papers k_citing) citing_index []) (\<lambda>citing_papers.
     let all_relevant_keys = fst ` set seed_papers \<union> fst ` set cited_papers \<union> fst ` set citing_papers;
         filtered_edges = filter (\<lambda>(src, tgt, etype). src \<in> all_relevant_keys \<and> tgt \<in> all_relevant_keys) edges;
         unique_edges = remdups filtered_edges
     in Inr \<lparr>g_seed_papers = seed_papers, g_cited_papers = cited_papers,
             g_citing_papers = citing_papers, g_edges = unique_edges\<rparr>))))"

section \<open>The seed key set\<close>

text \<open>The canonical key of a seed entry: the key of its metadata record, when the entry has
  metadata and the record resolves.\<close>

definition seed_key_of :: "pylib \<Rightarrow> entry \<Rightarrow> ustr option" where
  "seed_key_of L p =
     (case metadata p of
        None \<Rightarrow> None
      | Some md \<Rightarrow>
          if md = [] then None
          else (case get_paper_key L md of Inl e \<Rightarrow> None | Inr k \<Rightarrow> if key_truthy k then k else None))"

definition seed_key_set :: "pylib \<Rightarrow> entry list \<Rightarrow> ustr set" where
  "seed_key_set L papers = set (List.map_filter (seed_key_of L) papers)"

text \<open>The nodes of a graph: the keys of its three partitions.\<close>

definition node_keys :: "graph \<Rightarrow> ustr set" where
  "node_keys g = fst ` set (g_seed_papers g) \<union> fst ` set (g_cited_papers g) \<union> fst ` set (g_citing_papers g)"

text \<open>Every edge built so far is tagged \<open>"cites"\<close>.\<close>

definition edges_cites :: "vindex \<times> vindex \<times> edge list \<Rightarrow> bool" where
  "edges_cites st = (\<forall>e\<in>set (snd (snd st)). snd (snd e) = lit ''cites'')"

section \<open>Example documents\<close>

text \<open>A record with a one-letter title, and a seed entry with such metadata.\<close>

definition titled :: "nat \<Rightarrow> pdict" where
  "titled c = [(lit ''title'', JStr [c])]"

definition seed :: "nat \<Rightarrow> pdict list \<Rightarrow> pdict list \<Rightarrow> entry" where
  "seed c refs citers =
     \<lparr>input_doi = Some (JStr [c]), metadata = Some (titled c), references = refs, cited_by = citers\<rparr>"

text \<open>One seed paper \<open>a\<close> that lists the reference \<open>x\<close> twice.\<close>

definition doc_twice :: "entry list" where
  "doc_twice = [seed 97 [titled 120, titled 120] []]"

text \<open>One seed paper \<open>a\<close> that lists itself and \<open>x\<close> as references and itself as a citing paper.\<close>

definition doc_self :: "entry list" where
  "doc_self = [seed 97 [titled 97, titled 120] [titled 97]]"

text \<open>The entry of a result list for the record \<open>titled c\<close> with the occurrences \<open>occs\<close>.\<close>

definition entry_of :: "nat \<Rightarrow> seed_ref list \<Rightarrow> agg_entry" where
  "entry_of c occs =
     \<lparr>e_key = lit ''title:'' @ [c], e_doi = JStr [], e_arxiv_id = JStr [], e_title = JStr [c],
      e_authors = JStrs [], e_year = JNull, e_venue = JStr [], e_count = length occs,
      e_seed_papers = occs, is_in_seed_set = False\<rparr>"

definition node_of :: "nat \<Rightarrow> val option \<Rightarrow> nat option \<Rightarrow> node" where
  "node_of c d n =
     \<lparr>n_key = lit ''title:'' @ [c], n_doi = d, n_title = JStr [c], n_authors = JStrs [],
      n_year = JNull, n_venue = JStr [], n_count = n\<rparr>"

text \<open>One seed paper \<open>a\<close> that lists \<open>x\<close> twice as a reference and is cited by \<open>c\<close>.\<close>

definition doc_edges :: "entry list" where
  "doc_edges = [seed 97 [titled 120, titled 120] [titled 99]]"

section \<open>The contents of an index\<close>

text \<open>
  The key under which a record of a relation list is indexed (none when it does not
  resolve), the occurrences stored for a key, the occurrence that a seed entry with the
  label \<open>l\<close> leaves, and the records of a list that resolve to \<open>k\<close>.
\<close>

definition ref_key :: "pylib \<Rightarrow> pdict \<Rightarrow> ustr option" where
  "ref_key L r = (case get_paper_key L r of Inl e \<Rightarrow> None | Inr k \<Rightarrow> if key_truthy k then k else None)"

definition occs_of :: "rindex \<Rightarrow> ustr \<Rightarrow> seed_ref list" where
  "occs_of idx k = (case map_of idx k of None \<Rightarrow> [] | Some e \<Rightarrow> snd e)"

definition seed_occ :: "entry \<Rightarrow> val \<Rightarrow> seed_ref" where
  "seed_occ p l = \<lparr>r_doi = (case input_doi p of None \<Rightarrow> JStr [] | Some d \<Rightarrow> d), r_title = l\<rparr>"

definition refs_with :: "pylib \<Rightarrow> ustr \<Rightarrow> pdict list \<Rightarrow> pdict list" where
  "refs_with L k rs = filter (\<lambda>r. ref_key L r = Some k) rs"

text \<open>A seed entry whose metadata has a venue and no identifying field, with the reference
  \<open>x\<close> twice.\<close>

definition keyless :: entry where
  "keyless = \<lparr>input_doi = Some (JStr [100]), metadata = Some [(lit ''venue'', JStr [118])],
              references = [titled 120, titled 120], cited_by = []\<rparr>"

section \<open>The two entry points side by side\<close>












section \<open>Properties of the canonical keys\<close>

lemma rbind_Inr [simp]: "rbind (Inr x) f = f x"
  by (simp add: rbind_def)

lemma rbind_Inl [simp]: "rbind (Inl e) f = Inl e"
  by (simp add: rbind_def)

lemma re_search_arxiv_nonempty: "re_search_arxiv L s = Some g \<Longrightarrow> g \<noteq> []"
  by (induction s) (auto simp: match_arxiv_at_def Let_def split: option.splits if_splits list.splits)

lemma key_truthy_search: "key_truthy (re_search_arxiv L s) = (re_search_arxiv L s \<noteq> None)"
  by (cases "re_search_arxiv L s") (auto dest: re_search_arxiv_nonempty)

lemma normalize_title_Nil [simp]: "normalize_title L [] = []"
  by (simp add: normalize_title_def)

lemma str_or_falsy_bad: "str_or_falsy v = (\<not> bad v)"
  by (cases v) (auto simp: str_or_falsy_def bad_def)

lemma get_or_str_dflt:
  "truthy (get_or p k (JStr [])) = truthy (get_or p k JNull)"
  "truthy (get_or p k JNull) \<Longrightarrow> get_or p k (JStr []) = get_or p k JNull"
  "bad (get_or p k (JStr [])) = bad (get_or p k JNull)"
  by (auto simp: get_or_def bad_def split: option.splits)

text \<open>A field that is not bad is false, and reads as the empty string, or is a non-empty
  string.\<close>

lemma field_truthy:
  "\<not> bad (get_or p k JNull) \<Longrightarrow> truthy (get_or p k JNull) = (str_field p k \<noteq> [])"
  by (cases "get_or p k JNull") (auto simp: bad_def str_field_def)

lemma field_truthy_dflt:
  "\<not> bad (get_or p k JNull) \<Longrightarrow> truthy (get_or p k (JStr [])) = (str_field p k \<noteq> [])"
  by (simp add: get_or_str_dflt field_truthy)

lemma field_lower:
  "\<not> bad (get_or p k JNull) \<Longrightarrow> str_field p k \<noteq> [] \<Longrightarrow>
     py_lower L (get_or p k JNull) = Inr (str_lower L (str_field p k))"
  by (cases "get_or p k JNull") (auto simp: bad_def str_field_def)

lemma field_lower_dflt:
  "\<not> bad (get_or p k JNull) \<Longrightarrow> str_field p k \<noteq> [] \<Longrightarrow>
     py_lower L (get_or p k (JStr [])) = Inr (str_lower L (str_field p k))"
  using field_lower [of p k L] get_or_str_dflt(2) [of p k] field_truthy [of p k] by simp

lemma bad_lower: "bad v \<Longrightarrow> truthy v \<and> py_lower L v = Inl AttributeError"
  by (cases v) (auto simp: bad_def)

lemma title_step:
  assumes "\<not> bad (get_or p ''title'' JNull)"
  shows "normalize_title_val L (get_or p ''title'' (JStr []))
           = Inr (normalize_title L (str_field p ''title''))"
proof (cases "str_field p ''title'' = []")
  case True
  then show ?thesis using assms by (simp add: normalize_title_val_def field_truthy_dflt)
next
  case False
  then have "get_or p ''title'' (JStr []) = JStr (str_field p ''title'')"
    using assms get_or_str_dflt(2) [of p "''title''"] field_truthy [of p "''title''"]
    by (cases "get_or p ''title'' JNull") (auto simp: bad_def str_field_def)
  then show ?thesis using False by (simp add: normalize_title_val_def)
qed

lemma doi_step:
  assumes "\<not> bad (get_or p ''doi'' JNull)"
  shows "extract_arxiv_id_from_doi L (get_or p ''doi'' (JStr []))
           = Inr (Option.bind (nonempty (str_field p ''doi'')) (\<lambda>d. re_search_arxiv L (str_lower L d)))"
proof (cases "str_field p ''doi'' = []")
  case True
  then show ?thesis using assms
    by (simp add: extract_arxiv_id_from_doi_def field_truthy_dflt nonempty_def)
next
  case False
  then show ?thesis using assms
    by (simp add: extract_arxiv_id_from_doi_def field_truthy_dflt field_lower_dflt nonempty_def)
qed

lemma extract_raises_iff:
  "extract_arxiv_id_from_doi L v = (if bad v then Inl AttributeError
     else Inr (case v of JStr s \<Rightarrow> if s = [] then None else re_search_arxiv L (str_lower L s) | _ \<Rightarrow> None))"
  by (cases v) (auto simp: extract_arxiv_id_from_doi_def bad_def)

text \<open>The probes of a record, written out.\<close>

lemma probes_unfold:
  "probes L p =
     [probe_of p ''title'' (''title:'', nonempty (normalize_title L (str_field p ''title''))),
      probe_of p ''doi'' (''arxiv:'', Option.bind (nonempty (str_field p ''doi'')) (\<lambda>d. re_search_arxiv L (str_lower L d))),
      probe_of p ''arxiv_id'' (''arxiv:'', map_option (str_lower L) (nonempty (str_field p ''arxiv_id''))),
      probe_of p ''doi'' (''doi:'', map_option (str_lower L) (nonempty (str_field p ''doi''))),
      probe_of p ''openalex_id'' (''openalex:'', map_option (str_lower L) (nonempty (str_field p ''openalex_id''))),
      probe_of p ''s2_id'' (''s2:'', map_option (str_lower L) (nonempty (str_field p ''s2_id'')))]"
  by (simp add: probes_def inspected_def spec_namespaces_def)

lemma probe_bad: "bad (get_or p f JNull) \<Longrightarrow> probe_of p f ns = PRaise"
  by (simp add: probe_of_def)

lemma probe_next: "\<not> bad (get_or p f JNull) \<Longrightarrow> c = None \<Longrightarrow> probe_of p f (n, c) = PNext"
  by (simp add: probe_of_def)

lemma probe_key: "\<not> bad (get_or p f JNull) \<Longrightarrow> c = Some v \<Longrightarrow> probe_of p f (n, c) = PKey (lit n @ v)"
  by (simp add: probe_of_def)

lemma get_paper_key_probes: "get_paper_key L p = first_probe (probes L p)"
proof (cases "bad (get_or p ''title'' JNull)")
  case True
  then have "bad (get_or p ''title'' (JStr []))" by (simp add: get_or_str_dflt)
  then have "truthy (get_or p ''title'' (JStr []))"
    and "normalize_title_val L (get_or p ''title'' (JStr [])) = Inl AttributeError"
    using bad_lower [of "get_or p ''title'' (JStr [])" L] by (simp_all add: normalize_title_val_def)
  then have "get_paper_key L p = Inl AttributeError"
    by (simp add: get_paper_key_def Let_def)
  moreover have "first_probe (probes L p) = Inl AttributeError"
    by (simp add: probes_unfold probe_bad [OF True])
  ultimately show ?thesis by simp
next
  case t: False
  note ts = title_step [OF t] field_truthy_dflt [OF t]
  show ?thesis
  proof (cases "normalize_title L (str_field p ''title'')")
    case (Cons a n)
    then have "str_field p ''title'' \<noteq> []" by auto
    with Cons have "get_paper_key L p = Inr (Some (lit ''title:'' @ a # n))"
      by (simp add: get_paper_key_def Let_def ts)
    moreover have "nonempty (normalize_title L (str_field p ''title'')) = Some (a # n)"
      using Cons by (simp add: nonempty_def)
    then have "first_probe (probes L p) = Inr (Some (lit ''title:'' @ a # n))"
      by (simp add: probes_unfold probe_key [OF t])
    ultimately show ?thesis by simp
  next
    case nt: Nil
    have "nonempty (normalize_title L (str_field p ''title'')) = None"
      using nt by (simp add: nonempty_def)
    note p1 = probe_next [OF t this]
    show ?thesis
    proof (cases "bad (get_or p ''doi'' JNull)")
      case True
      then have "extract_arxiv_id_from_doi L (get_or p ''doi'' (JStr [])) = Inl AttributeError"
        by (simp add: extract_raises_iff get_or_str_dflt)
      then have "get_paper_key L p = Inl AttributeError"
        using nt by (simp add: get_paper_key_def Let_def ts)
      moreover have "first_probe (probes L p) = Inl AttributeError"
        by (simp add: probes_unfold p1 probe_bad [OF True])
      ultimately show ?thesis by simp
    next
      case d: False
      note ds = doi_step [OF d] field_truthy_dflt [OF d]
      show ?thesis
      proof (cases "Option.bind (nonempty (str_field p ''doi'')) (\<lambda>d. re_search_arxiv L (str_lower L d))")
        case (Some g)
        then have "g \<noteq> []"
          by (auto simp: nonempty_def split: if_splits dest: re_search_arxiv_nonempty)
        with Some have "get_paper_key L p = Inr (Some (lit ''arxiv:'' @ g))"
          using nt by (simp add: get_paper_key_def Let_def ts ds)
        moreover have "first_probe (probes L p) = Inr (Some (lit ''arxiv:'' @ g))"
          by (simp add: probes_unfold p1 probe_key [OF d Some])
        ultimately show ?thesis by simp
      next
        case None
        note p2 = probe_next [OF d None]
        show ?thesis
        proof (cases "bad (get_or p ''arxiv_id'' JNull)")
          case True
          then have "bad (get_or p ''arxiv_id'' (JStr []))" by (simp add: get_or_str_dflt)
          then have "truthy (get_or p ''arxiv_id'' (JStr []))"
            and "py_lower L (get_or p ''arxiv_id'' (JStr [])) = Inl AttributeError"
            using bad_lower by blast+
          then have "get_paper_key L p = Inl AttributeError"
            using nt None by (simp add: get_paper_key_def Let_def ts ds)
          moreover have "first_probe (probes L p) = Inl AttributeError"
            by (simp add: probes_unfold p1 p2 probe_bad [OF True])
          ultimately show ?thesis by simp
        next
          case a: False
          note as = field_truthy_dflt [OF a] field_lower_dflt [OF a]
          show ?thesis
          proof (cases "str_field p ''arxiv_id'' = []")
            case False
            then have "get_paper_key L p = Inr (Some (lit ''arxiv:'' @ str_lower L (str_field p ''arxiv_id'')))"
              using nt None by (simp add: get_paper_key_def Let_def ts ds as)
            moreover have "map_option (str_lower L) (nonempty (str_field p ''arxiv_id''))
                             = Some (str_lower L (str_field p ''arxiv_id''))"
              using False by (simp add: nonempty_def)
            then have "first_probe (probes L p) = Inr (Some (lit ''arxiv:'' @ str_lower L (str_field p ''arxiv_id'')))"
              by (simp add: probes_unfold p1 p2 probe_key [OF a])
            ultimately show ?thesis by simp
          next
            case na: True
            then have "map_option (str_lower L) (nonempty (str_field p ''arxiv_id'')) = None"
              by (simp add: nonempty_def)
            note p3 = probe_next [OF a this]
            show ?thesis
            proof (cases "str_field p ''doi'' = []")
              case False
              then have "get_paper_key L p = Inr (Some (lit ''doi:'' @ str_lower L (str_field p ''doi'')))"
                using nt None na by (simp add: get_paper_key_def Let_def ts ds as field_lower_dflt [OF d])
              moreover have "map_option (str_lower L) (nonempty (str_field p ''doi''))
                               = Some (str_lower L (str_field p ''doi''))"
                using False by (simp add: nonempty_def)
              then have "first_probe (probes L p) = Inr (Some (lit ''doi:'' @ str_lower L (str_field p ''doi'')))"
                by (simp add: probes_unfold p1 p2 p3 probe_key [OF d])
              ultimately show ?thesis by simp
            next
              case nd: True
              then have "map_option (str_lower L) (nonempty (str_field p ''doi'')) = None"
                by (simp add: nonempty_def)
              note p4 = probe_next [OF d this]
              show ?thesis
              proof (cases "bad (get_or p ''openalex_id'' JNull)")
                case True
                then have "get_paper_key L p = Inl AttributeError"
                  using nt None na nd bad_lower [OF True, of L]
                  by (simp add: get_paper_key_def Let_def ts ds as)
                moreover have "first_probe (probes L p) = Inl AttributeError"
                  by (simp add: probes_unfold p1 p2 p3 p4 probe_bad [OF True])
                ultimately show ?thesis by simp
              next
                case oa: False
                show ?thesis
                proof (cases "str_field p ''openalex_id'' = []")
                  case False
                  then have "get_paper_key L p = Inr (Some (lit ''openalex:'' @ str_lower L (str_field p ''openalex_id'')))"
                    using nt None na nd
                    by (simp add: get_paper_key_def Let_def ts ds as field_truthy [OF oa] field_lower [OF oa])
                  moreover have "map_option (str_lower L) (nonempty (str_field p ''openalex_id''))
                                   = Some (str_lower L (str_field p ''openalex_id''))"
                    using False by (simp add: nonempty_def)
                  then have "first_probe (probes L p) = Inr (Some (lit ''openalex:'' @ str_lower L (str_field p ''openalex_id'')))"
                    by (simp add: probes_unfold p1 p2 p3 p4 probe_key [OF oa])
                  ultimately show ?thesis by simp
                next
                  case no: True
                  then have "map_option (str_lower L) (nonempty (str_field p ''openalex_id'')) = None"
                    by (simp add: nonempty_def)
                  note p5 = probe_next [OF oa this]
                  show ?thesis
                  proof (cases "bad (get_or p ''s2_id'' JNull)")
                    case True
                    then have "get_paper_key L p = Inl AttributeError"
                      using nt None na nd no bad_lower [OF True, of L]
                      by (simp add: get_paper_key_def Let_def ts ds as field_truthy [OF oa])
                    moreover have "first_probe (probes L p) = Inl AttributeError"
                      by (simp add: probes_unfold p1 p2 p3 p4 p5 probe_bad [OF True])
                    ultimately show ?thesis by simp
                  next
                    case s2: False
                    show ?thesis
                    proof (cases "str_field p ''s2_id'' = []")
                      case False
                      then have "get_paper_key L p = Inr (Some (lit ''s2:'' @ str_lower L (str_field p ''s2_id'')))"
                        using nt None na nd no
                        by (simp add: get_paper_key_def Let_def ts ds as field_truthy [OF oa]
                            field_truthy [OF s2] field_lower [OF s2])
                      moreover have "map_option (str_lower L) (nonempty (str_field p ''s2_id''))
                                       = Some (str_lower L (str_field p ''s2_id''))"
                        using False by (simp add: nonempty_def)
                      then have "first_probe (probes L p) = Inr (Some (lit ''s2:'' @ str_lower L (str_field p ''s2_id'')))"
                        by (simp add: probes_unfold p1 p2 p3 p4 p5 probe_key [OF s2])
                      ultimately show ?thesis by simp
                    next
                      case ns: True
                      then have "get_paper_key L p = Inr None"
                        using nt None na nd no
                        by (simp add: get_paper_key_def Let_def ts ds as field_truthy [OF oa]
                            field_truthy [OF s2])
                      moreover have "map_option (str_lower L) (nonempty (str_field p ''s2_id'')) = None"
                        using ns by (simp add: nonempty_def)
                      then have "first_probe (probes L p) = Inr None"
                        by (simp add: probes_unfold p1 p2 p3 p4 p5 probe_next [OF s2])
                      ultimately show ?thesis by simp
                    qed
                  qed
                qed
              qed
            qed
          qed
        qed
      qed
    qed
  qed
qed

lemma fields_ok_not_bad:
  "fields_ok p \<Longrightarrow> k \<in> {''title'', ''doi'', ''arxiv_id'', ''openalex_id'', ''s2_id''}
     \<Longrightarrow> \<not> bad (get_or p k JNull)"
  by (auto simp: fields_ok_def str_or_falsy_bad)

lemma first_probe_ok:
  "length fs = length ns \<Longrightarrow> \<forall>f\<in>set fs. \<not> bad (get_or p f JNull)
     \<Longrightarrow> first_probe (map2 (probe_of p) fs ns) = Inr (first_satisfied ns)"
proof (induction ns arbitrary: fs rule: first_satisfied.induct)
  case 1
  then show ?case by simp
next
  case (2 ns rest)
  then show ?case by (cases fs) (auto simp: probe_of_def)
next
  case (3 ns v rest)
  then show ?case by (cases fs) (auto simp: probe_of_def)
qed

lemma get_paper_key_spec:
  assumes "fields_ok p"
  shows "get_paper_key L p = Inr (first_satisfied (spec_namespaces L p))"
proof -
  have "\<forall>f\<in>set inspected. \<not> bad (get_or p f JNull)"
    using fields_ok_not_bad [OF assms] by (simp add: inspected_def)
  moreover have "length inspected = length (spec_namespaces L p)"
    by (simp add: inspected_def spec_namespaces_def)
  ultimately show ?thesis
    unfolding get_paper_key_probes probes_def by (intro first_probe_ok)
qed

lemma viz_get_paper_key_spec:
  assumes "fields_ok p"
  shows "viz_get_paper_key L p = Inr (first_satisfied (viz_namespaces L p))"
proof -
  note nb = fields_ok_not_bad [OF assms]
  have t: "\<not> bad (get_or p ''title'' JNull)" and d: "\<not> bad (get_or p ''doi'' JNull)"
    and a: "\<not> bad (get_or p ''arxiv_id'' JNull)" and oa: "\<not> bad (get_or p ''openalex_id'' JNull)"
    and s2: "\<not> bad (get_or p ''s2_id'' JNull)"
    using nb by simp_all
  show ?thesis
    by (simp add: viz_get_paper_key_def viz_namespaces_def nonempty_def
        field_truthy [OF t] field_truthy [OF d] field_truthy [OF a] field_truthy [OF oa] field_truthy [OF s2]
        field_lower [OF t] field_lower [OF d] field_lower [OF a] field_lower [OF oa] field_lower [OF s2])
qed

lemma first_satisfied_nonempty:
  "first_satisfied xs = Some s \<Longrightarrow> \<forall>x\<in>set xs. fst x \<noteq> [] \<Longrightarrow> s \<noteq> []"
  by (induction xs rule: first_satisfied.induct) (auto simp: lit_def)

lemma first_probe_results:
  "length fs = length ns \<Longrightarrow> \<forall>x\<in>set ns. fst x \<noteq> [] \<Longrightarrow>
     first_probe (map2 (probe_of p) fs ns) = Inl AttributeError
     \<or> first_probe (map2 (probe_of p) fs ns) = Inr None
     \<or> (\<exists>s. s \<noteq> [] \<and> first_probe (map2 (probe_of p) fs ns) = Inr (Some s))"
proof (induction ns arbitrary: fs)
  case Nil
  then show ?case by simp
next
  case (Cons n ns)
  then obtain f fs' where fs: "fs = f # fs'" by (cases fs) auto
  have "lit (fst n) \<noteq> []" using Cons.prems(2) by (simp add: lit_def)
  then show ?case using Cons fs
    by (cases "probe_of p f n") (auto simp: probe_of_def split: if_splits option.splits)
qed

lemma latin1_sel [simp]:
  "str_lower latin1 s = map lower_cp s"
  "re_digit latin1 c = (48 \<le> c \<and> c \<le> 57)"
  by (simp_all add: latin1_def)

text \<open>
  C8, as the code has it: \<open>get_paper_key\<close> reads the fields title, doi, arxiv\_id, doi,
  openalex\_id, s2\_id in this order and stops at the first that gives a key. It raises
  \<open>AttributeError\<close> exactly when a field it reads before it stops is bad, and it returns a
  non-empty key string or \<open>None\<close> otherwise; \<open>extract_arxiv_id_from_doi\<close> raises exactly on
  a bad DOI. In particular it returns on every record whose five fields are each missing,
  false or a string.
\<close>

theorem get_paper_key_raises_exactly:
  "get_paper_key L p = first_probe (probes L p) \<and>
   (get_paper_key L p = Inl AttributeError \<or> get_paper_key L p = Inr None
      \<or> (\<exists>s. s \<noteq> [] \<and> get_paper_key L p = Inr (Some s))) \<and>
   ((\<exists>a. extract_arxiv_id_from_doi L v = Inr a) \<longleftrightarrow> \<not> bad v) \<and>
   (fields_ok p \<longrightarrow> (\<exists>k. get_paper_key L p = Inr k))"
proof -
  have "length inspected = length (spec_namespaces L p)"
    and "\<forall>x\<in>set (spec_namespaces L p). fst x \<noteq> []"
    by (simp_all add: inspected_def spec_namespaces_def)
  then have "first_probe (probes L p) = Inl AttributeError \<or> first_probe (probes L p) = Inr None
      \<or> (\<exists>s. s \<noteq> [] \<and> first_probe (probes L p) = Inr (Some s))"
    unfolding probes_def by (rule first_probe_results)
  moreover have "(\<exists>a. extract_arxiv_id_from_doi L v = Inr a) \<longleftrightarrow> \<not> bad v"
    by (simp add: extract_raises_iff)
  ultimately show ?thesis
    by (simp add: get_paper_key_probes [symmetric] get_paper_key_spec)
qed

text \<open>A record with well-typed fields, and a record whose bad DOI is never read because the
  title gives the key.\<close>

theorem get_paper_key_raises_exactly_witness:
  "fields_ok [(lit ''title'', JNull), (lit ''doi'', JStr []), (lit ''s2_id'', JStr (lit ''Ab''))] \<and>
   get_paper_key latin1 [(lit ''title'', JNull), (lit ''doi'', JStr []), (lit ''s2_id'', JStr (lit ''Ab''))]
     = Inr (Some (lit ''s2:ab'')) \<and>
   get_paper_key latin1 [(lit ''title'', JStr (lit ''a'')), (lit ''doi'', JNum 5)]
     = Inr (Some (lit ''title:a''))"
proof -
  have n: "normalize_title latin1 [97] = [97]"
    by (simp add: normalize_title_def lower_cp_def split_ws_def is_space_def punctuation_def strip_def)
  have "get_paper_key latin1 [(lit ''title'', JNull), (lit ''doi'', JStr []), (lit ''s2_id'', JStr (lit ''Ab''))]
          = Inr (Some (lit ''s2:ab''))"
    using get_paper_key_raises_exactly [of latin1 "[(lit ''title'', JNull), (lit ''doi'', JStr []), (lit ''s2_id'', JStr (lit ''Ab''))]"]
    by (simp add: probes_unfold probe_of_def str_field_def get_or_def lit_def bad_def nonempty_def lower_cp_def)
  moreover have "get_paper_key latin1 [(lit ''title'', JStr (lit ''a'')), (lit ''doi'', JNum 5)]
          = Inr (Some (lit ''title:a''))"
    using get_paper_key_raises_exactly [of latin1 "[(lit ''title'', JStr (lit ''a'')), (lit ''doi'', JNum 5)]"]
    by (simp add: probes_unfold probe_of_def str_field_def get_or_def lit_def bad_def nonempty_def n)
  ultimately show ?thesis
    by (simp add: fields_ok_def get_or_def lit_def str_or_falsy_def)
qed

text \<open>
  C8 as stated fails: a title that is a number is a malformed field, and \<open>title.lower()\<close>
  raises on it.
\<close>

theorem get_paper_key_raises:
  "get_paper_key latin1 [(lit ''title'', JNum 5)] = Inl AttributeError"
  by (simp add: get_paper_key_def get_or_def lit_def normalize_title_val_def)

text \<open>
  C2, as the code has it: on a record with well-typed fields the key of the analysis entry
  point is the first satisfied namespace in the order title, arXiv id from the DOI, arXiv
  id, DOI, OpenAlex id, Semantic Scholar id, and the key of the visualization entry point
  is the first satisfied namespace in the order DOI, arXiv id, OpenAlex id, Semantic
  Scholar id, title (lowercased and cut to 100 characters).
\<close>

theorem key_priority_order:
  "fields_ok p \<Longrightarrow>
     get_paper_key L p = Inr (first_satisfied (spec_namespaces L p)) \<and>
     viz_get_paper_key L p = Inr (first_satisfied (viz_namespaces L p))"
  by (simp add: get_paper_key_spec viz_get_paper_key_spec)

text \<open>A record with a title, a DOI that holds an arXiv id, and an arXiv id: the analysis takes
  the title, the visualization the DOI.\<close>

theorem key_priority_order_witness:
  "fields_ok [(lit ''title'', JStr (lit ''A'')), (lit ''doi'', JStr (lit ''10.48550/arXiv.1.2'')),
              (lit ''arxiv_id'', JStr (lit ''1.2''))] \<and>
   get_paper_key latin1 [(lit ''title'', JStr (lit ''A'')), (lit ''doi'', JStr (lit ''10.48550/arXiv.1.2'')),
              (lit ''arxiv_id'', JStr (lit ''1.2''))] = Inr (Some (lit ''title:a'')) \<and>
   viz_get_paper_key latin1 [(lit ''title'', JStr (lit ''A'')), (lit ''doi'', JStr (lit ''10.48550/arXiv.1.2'')),
              (lit ''arxiv_id'', JStr (lit ''1.2''))] = Inr (Some (lit ''doi:10.48550/arxiv.1.2''))"
proof -
  have n: "normalize_title latin1 [65] = [97]"
    by (simp add: normalize_title_def lower_cp_def split_ws_def is_space_def punctuation_def strip_def)
  have ok: "fields_ok [(lit ''title'', JStr (lit ''A'')), (lit ''doi'', JStr (lit ''10.48550/arXiv.1.2'')),
              (lit ''arxiv_id'', JStr (lit ''1.2''))]"
    by (simp add: fields_ok_def get_or_def lit_def str_or_falsy_def)
  show ?thesis
    using key_priority_order [OF ok, of latin1] ok
    by (simp add: spec_namespaces_def viz_namespaces_def str_field_def get_or_def lit_def nonempty_def n
        lower_cp_def)
qed

text \<open>
  C2 as stated fails for the visualization entry point: a record with a title and a DOI
  gets its DOI key there, not the title key of the specified order.
\<close>

theorem viz_key_not_title_first:
  "viz_get_paper_key latin1 [(lit ''title'', JStr (lit ''a'')), (lit ''doi'', JStr (lit ''10.1/x''))]
     \<noteq> Inr (first_satisfied (spec_namespaces latin1 [(lit ''title'', JStr (lit ''a'')), (lit ''doi'', JStr (lit ''10.1/x''))]))"
proof -
  have n: "normalize_title latin1 [97] = [97]"
    by (simp add: normalize_title_def lower_cp_def split_ws_def is_space_def punctuation_def strip_def)
  show ?thesis
    by (simp add: viz_get_paper_key_def spec_namespaces_def str_field_def get_or_def lit_def n nonempty_def)
qed

section \<open>Title normalization\<close>

subsection \<open>Splitting and joining\<close>

lemma is_space_32 [simp]: "is_space 32"
  by (simp add: is_space_def)

lemma split_acc_append:
  "\<forall>c\<in>set xs. \<not> is_space c \<Longrightarrow> split_acc w (xs @ rest) = split_acc (w @ xs) rest"
  by (induction xs arbitrary: w) auto

lemma split_ws_word: "word_ok w \<Longrightarrow> split_ws w = [w]"
  using split_acc_append [of w "[]" "[]"] by (simp add: split_ws_def word_ok_def)

lemma split_ws_word_sp:
  "word_ok w \<Longrightarrow> is_space c \<Longrightarrow> split_ws (w @ c # s) = w # split_ws s"
  using split_acc_append [of w "[]" "c # s"] by (simp add: split_ws_def word_ok_def)

lemma split_join: "\<forall>w\<in>set ws. word_ok w \<Longrightarrow> split_ws (join_sp ws) = ws"
proof (induction ws rule: join_sp.induct)
  case 1
  then show ?case by (simp add: split_ws_def)
next
  case (2 w)
  then show ?case by (simp add: split_ws_word)
next
  case (3 w v ws)
  then show ?case by (simp add: split_ws_word_sp)
qed

lemma split_acc_words_ok:
  "\<forall>c\<in>set w. \<not> is_space c \<Longrightarrow> x \<in> set (split_acc w s) \<Longrightarrow> word_ok x"
proof (induction s arbitrary: w)
  case Nil
  then show ?case by (auto simp: word_ok_def split: if_splits)
next
  case (Cons c cs)
  show ?case
  proof (cases "is_space c")
    case True
    with Cons.prems have "(x = w \<and> w \<noteq> []) \<or> x \<in> set (split_acc [] cs)"
      by (auto split: if_splits)
    then show ?thesis
      using Cons.prems(1) Cons.IH [of "[]"] by (auto simp: word_ok_def)
  next
    case False
    with Cons.prems have "x \<in> set (split_acc (w @ [c]) cs)" by simp
    moreover have "\<forall>d\<in>set (w @ [c]). \<not> is_space d" using False Cons.prems(1) by simp
    ultimately show ?thesis using Cons.IH [of "w @ [c]"] by blast
  qed
qed

lemma split_ws_words_ok: "x \<in> set (split_ws s) \<Longrightarrow> word_ok x"
  using split_acc_words_ok [of "[]" x s] by (simp add: split_ws_def)

lemma split_acc_sublist: "x \<in> set (split_acc w s) \<Longrightarrow> sublist x (w @ s)"
proof (induction s arbitrary: w)
  case Nil
  then show ?case by (auto split: if_splits)
next
  case (Cons c cs)
  show ?case
  proof (cases "is_space c")
    case True
    with Cons.prems have "x = w \<or> x \<in> set (split_acc [] cs)"
      by (auto split: if_splits)
    then show ?thesis
    proof
      assume "x = w"
      then show ?thesis by simp
    next
      assume "x \<in> set (split_acc [] cs)"
      then have "sublist x cs" using Cons.IH [of "[]"] by simp
      then show ?thesis by (simp add: sublist_append sublist_Cons_right)
    qed
  next
    case False
    with Cons.prems have "x \<in> set (split_acc (w @ [c]) cs)" by simp
    then show ?thesis using Cons.IH [of "w @ [c]"] by simp
  qed
qed

lemma split_ws_sublist: "x \<in> set (split_ws s) \<Longrightarrow> sublist x s"
  using split_acc_sublist [of x "[]" s] by (simp add: split_ws_def)

lemma join_sp_Cons: "ws \<noteq> [] \<Longrightarrow> join_sp (w # ws) = w @ 32 # join_sp ws"
  by (cases ws) auto

lemma join_sp_Nil_iff: "\<forall>w\<in>set ws. word_ok w \<Longrightarrow> join_sp ws = [] \<longleftrightarrow> ws = []"
  by (induction ws rule: join_sp.induct) (auto simp: word_ok_def)

lemma hd_join_sp: "\<forall>w\<in>set ws. word_ok w \<Longrightarrow> ws \<noteq> [] \<Longrightarrow> \<not> is_space (hd (join_sp ws))"
  by (induction ws rule: join_sp.induct) (auto simp: word_ok_def hd_append)

lemma last_join_sp: "\<forall>w\<in>set ws. word_ok w \<Longrightarrow> ws \<noteq> [] \<Longrightarrow> \<not> is_space (last (join_sp ws))"
proof (induction ws rule: join_sp.induct)
  case (3 w v ws)
  then have "join_sp (v # ws) \<noteq> []" using join_sp_Nil_iff [of "v # ws"] by simp
  with 3 show ?case by simp
qed (auto simp: word_ok_def)

lemma strip_id: "s = [] \<or> (\<not> is_space (hd s) \<and> \<not> is_space (last s)) \<Longrightarrow> strip s = s"
proof (cases s)
  case Nil then show ?thesis by (simp add: strip_def)
next
  case (Cons a as)
  assume "s = [] \<or> (\<not> is_space (hd s) \<and> \<not> is_space (last s))"
  with Cons have h: "\<not> is_space a" and l: "\<not> is_space (last s)" by auto
  from h Cons have "dropWhile is_space s = s" by simp
  moreover have r: "rev s = last s # rev (butlast s)"
    using Cons by (metis append_butlast_last_id list.distinct(1) rev.simps(2) rev_rev_ident rev_swap)
  have "dropWhile is_space (rev s) = rev s"
    by (subst (1 2) r) (simp add: l)
  ultimately show ?thesis by (simp add: strip_def)
qed

lemma strip_join_sp: "\<forall>w\<in>set ws. word_ok w \<Longrightarrow> strip (join_sp ws) = join_sp ws"
  by (cases "ws = []") (auto intro!: strip_id simp: hd_join_sp last_join_sp)

lemma set_join_sp: "set (join_sp ws) \<subseteq> insert 32 (\<Union> (set ` set ws))"
  by (induction ws rule: join_sp.induct) auto

lemma set_split_ws: "x \<in> set (split_ws s) \<Longrightarrow> set x \<subseteq> set s"
  by (drule split_ws_sublist) (rule set_mono_sublist)


subsection \<open>Replacing a pattern by a space\<close>

lemma replace_absent: "\<not> sublist p s \<Longrightarrow> replace p new s = s"
proof (induction p new s rule: replace.induct)
  case (1 old new)
  then show ?case by auto
next
  case (2 old new c cs)
  from 2(4) have ne: "old \<noteq> []" by auto
  have np: "take (length old) (c # cs) \<noteq> old"
  proof
    assume "take (length old) (c # cs) = old"
    then have "prefix old (c # cs)" by (metis take_is_prefix)
    with 2(4) show False by auto
  qed
  have "\<not> sublist old cs" using 2(4) by (auto simp: sublist_Cons_right)
  with 2(3) ne np have "replace old new cs = cs" by simp
  with ne np show ?case by simp
qed

lemma prefix_replace:
  "prefix p (replace q [32] s) \<Longrightarrow> 32 \<notin> set p \<Longrightarrow> q \<noteq> [] \<Longrightarrow> prefix p s"
proof (induction q "[32::nat]" s arbitrary: p rule: replace.induct)
  case (1 old)
  then show ?case by simp
next
  case (2 old c cs)
  show ?case
  proof (cases "take (length old) (c # cs) = old")
    case True
    with 2(4,6) have "prefix p (32 # replace old [32] (drop (length old) (c # cs)))" by simp
    with 2(5) have "p = []" by (cases p) auto
    then show ?thesis by simp
  next
    case False
    with 2(4,6) have pp: "prefix p (c # replace old [32] cs)" by simp
    show ?thesis
    proof (cases p)
      case Nil
      then show ?thesis by simp
    next
      case (Cons a p')
      with pp have "a = c" "prefix p' (replace old [32] cs)" by auto
      moreover have "32 \<notin> set p'" using 2(5) Cons by simp
      ultimately have "prefix p' cs" using 2(3) [of p'] False 2(6) by simp
      with \<open>a = c\<close> Cons show ?thesis by simp
    qed
  qed
qed

lemma sublist_replace:
  "sublist p (replace q [32] s) \<Longrightarrow> 32 \<notin> set p \<Longrightarrow> q \<noteq> [] \<Longrightarrow> p \<noteq> [] \<Longrightarrow> sublist p s"
proof (induction q "[32::nat]" s rule: replace.induct)
  case (1 old)
  then show ?case by simp
next
  case (2 old c cs)
  show ?case
  proof (cases "take (length old) (c # cs) = old")
    case True
    with 2(4,6) have "sublist p (32 # replace old [32] (drop (length old) (c # cs)))" by simp
    then have "prefix p (32 # replace old [32] (drop (length old) (c # cs)))
                 \<or> sublist p (replace old [32] (drop (length old) (c # cs)))"
      by (simp add: sublist_Cons_right)
    moreover have "\<not> prefix p (32 # replace old [32] (drop (length old) (c # cs)))"
      using 2(5,7) by (cases p) auto
    ultimately have "sublist p (drop (length old) (c # cs))"
      using 2(2) True 2(5,6,7) by simp
    then show ?thesis using sublist_drop sublist_order.order_trans by blast
  next
    case False
    with 2(4,6) have "sublist p (c # replace old [32] cs)" by simp
    then have "prefix p (c # replace old [32] cs) \<or> sublist p (replace old [32] cs)"
      by (simp add: sublist_Cons_right)
    then show ?thesis
    proof
      assume "prefix p (c # replace old [32] cs)"
      then have "prefix p (replace old [32] (c # cs))" using False 2(6) by simp
      then have "prefix p (c # cs)" using 2(5,6) by (rule prefix_replace)
      then show ?thesis by simp
    next
      assume "sublist p (replace old [32] cs)"
      then have "sublist p cs" using 2(3) False 2(5,6,7) by simp
      then show ?thesis by (simp add: sublist_Cons_right)
    qed
  qed
qed

lemma replace_removes:
  "32 \<notin> set p \<Longrightarrow> p \<noteq> [] \<Longrightarrow> \<not> sublist p (replace p [32] s)"
proof (induction p "[32::nat]" s rule: replace.induct)
  case (1 old)
  then show ?case by simp
next
  case (2 old c cs)
  show ?case
  proof (cases "take (length old) (c # cs) = old")
    case True
    have "\<not> prefix old (32 # replace old [32] (drop (length old) (c # cs)))"
      using 2(4,5) by (cases old) auto
    moreover have "\<not> sublist old (replace old [32] (drop (length old) (c # cs)))"
      using 2(2) True 2(4,5) by simp
    ultimately show ?thesis using True 2(5) by (simp add: sublist_Cons_right)
  next
    case False
    have "\<not> prefix old (c # replace old [32] cs)"
    proof
      assume "prefix old (c # replace old [32] cs)"
      then have "prefix old (replace old [32] (c # cs))" using False 2(5) by simp
      then have "prefix old (c # cs)" using 2(4,5) by (rule prefix_replace)
      then have "take (length old) (c # cs) = old" by (metis append_eq_conv_conj prefix_def)
      with False show False by simp
    qed
    moreover have "\<not> sublist old (replace old [32] cs)"
      using 2(3) False 2(4,5) by simp
    ultimately show ?thesis using False 2(5) by (simp add: sublist_Cons_right)
  qed
qed

lemma set_replace: "q \<noteq> [] \<Longrightarrow> set (replace q [32] s) \<subseteq> insert 32 (set s)"
proof (induction q "[32::nat]" s rule: replace.induct)
  case (1 old)
  then show ?case by simp
next
  case (2 old c cs)
  have "set (drop (length old) (c # cs)) \<subseteq> set (c # cs)" by (rule set_drop_subset)
  with 2 show ?case by (cases "take (length old) (c # cs) = old") auto
qed


subsection \<open>The shape of a normalized title\<close>

lemma fold_absent:
  "\<forall>p\<in>set ps. \<not> sublist p s \<Longrightarrow> foldl (\<lambda>s char. replace char [32] s) s ps = s"
  by (induction ps) (auto simp: replace_absent)

lemma fold_removes:
  "\<forall>p\<in>set ps. p \<noteq> [] \<and> 32 \<notin> set p \<Longrightarrow> p \<in> set ps
     \<Longrightarrow> \<not> sublist p (foldl (\<lambda>s char. replace char [32] s) s ps)"
proof (induction ps arbitrary: p rule: rev_induct)
  case Nil
  then show ?case by simp
next
  case (snoc q qs)
  show ?case
  proof (cases "p = q")
    case True
    then show ?thesis using snoc.prems by (simp add: replace_removes)
  next
    case False
    with snoc.prems have "p \<in> set qs" by simp
    then have "\<not> sublist p (foldl (\<lambda>s char. replace char [32] s) s qs)"
      using snoc.IH snoc.prems(1) by simp
    moreover have "32 \<notin> set p" "p \<noteq> []" "q \<noteq> []" using snoc.prems by auto
    ultimately show ?thesis using sublist_replace [of p q] by auto
  qed
qed

lemma set_fold:
  "\<forall>p\<in>set ps. p \<noteq> [] \<Longrightarrow> set (foldl (\<lambda>s char. replace char [32] s) s ps) \<subseteq> insert 32 (set s)"
proof (induction ps rule: rev_induct)
  case Nil
  then show ?case by auto
next
  case (snoc q qs)
  then have "set (foldl (\<lambda>s char. replace char [32] s) s qs) \<subseteq> insert 32 (set s)" by simp
  moreover have "set (replace q [32] (foldl (\<lambda>s char. replace char [32] s) s qs))
                   \<subseteq> insert 32 (set (foldl (\<lambda>s char. replace char [32] s) s qs))"
    using snoc.prems by (intro set_replace) simp
  ultimately show ?case by auto
qed

lemma sublist_sep:
  assumes "sublist p (a @ c # b)" "c \<notin> set p"
  shows "sublist p a \<or> sublist p b"
proof -
  from assms(1) consider "sublist p a" | "sublist p (c # b)"
    | xs1 xs2 where "p = xs1 @ xs2" "suffix xs1 a" "prefix xs2 (c # b)"
    by (auto simp: sublist_append)
  then show ?thesis
  proof cases
    case 1 then show ?thesis by simp
  next
    case 2
    then have "prefix p (c # b) \<or> sublist p b" by (simp add: sublist_Cons_right)
    moreover have "prefix p (c # b) \<Longrightarrow> p = []" using assms(2) by (cases p) auto
    ultimately show ?thesis by auto
  next
    case 3
    then have "xs2 = []" using assms(2) by (cases xs2) auto
    with 3 show ?thesis by auto
  qed
qed

lemma sublist_join:
  "sublist p (join_sp ws) \<Longrightarrow> 32 \<notin> set p \<Longrightarrow> p \<noteq> [] \<Longrightarrow> \<exists>w\<in>set ws. sublist p w"
proof (induction ws rule: join_sp.induct)
  case 1
  then show ?case by simp
next
  case (2 w)
  then show ?case by simp
next
  case (3 w v ws)
  from 3(2) have "sublist p (w @ 32 # join_sp (v # ws))" by simp
  then have "sublist p w \<or> sublist p (join_sp (v # ws))" using 3(3) by (rule sublist_sep)
  then show ?case using 3 by auto
qed

lemma take_join:
  "\<forall>w\<in>set ws. word_ok w \<Longrightarrow>
     take n (join_sp ws) = [] \<or> last (take n (join_sp ws)) = 32
     \<or> (\<exists>ws'. (\<forall>w\<in>set ws'. word_ok w) \<and> take n (join_sp ws) = join_sp ws')"
proof (induction ws arbitrary: n rule: join_sp.induct)
  case 1
  then show ?case by simp
next
  case (2 w)
  show ?case
  proof (cases "take n w = []")
    case True then show ?thesis by simp
  next
    case False
    have "word_ok (take n w)" using False 2 by (auto simp: word_ok_def dest: in_set_takeD)
    then have "(\<forall>x\<in>set [take n w]. word_ok x) \<and> take n (join_sp [w]) = join_sp [take n w]" by simp
    then show ?thesis by blast
  qed
next
  case (3 w v ws)
  let ?rest = "join_sp (v # ws)"
  consider "n \<le> length w" | "n = Suc (length w)" | "n > Suc (length w)" by linarith
  then show ?case
  proof cases
    case 1
    then have e: "take n (join_sp (w # v # ws)) = take n w" by simp
    show ?thesis
    proof (cases "take n w = []")
      case True with e show ?thesis by simp
    next
      case False
      have "word_ok (take n w)" using False 3(2) by (auto simp: word_ok_def dest: in_set_takeD)
      then have "(\<forall>x\<in>set [take n w]. word_ok x) \<and> take n (join_sp (w # v # ws)) = join_sp [take n w]"
        using e by simp
      then show ?thesis by blast
    qed
  next
    case 2
    then have "take n (join_sp (w # v # ws)) = w @ [32]" by simp
    then show ?thesis by simp
  next
    case 3
    define m where "m = n - Suc (length w)"
    have m: "m > 0" and e: "take n (join_sp (w # v # ws)) = w @ 32 # take m ?rest"
      using 3 by (simp_all add: m_def take_Cons')
    have ne: "?rest \<noteq> []" using join_sp_Nil_iff [of "v # ws"] "3.prems" by simp
    with m have tne: "take m ?rest \<noteq> []" by simp
    from "3.IH" [of m] "3.prems"
    have "take m ?rest = [] \<or> last (take m ?rest) = 32
             \<or> (\<exists>ws'. (\<forall>w\<in>set ws'. word_ok w) \<and> take m ?rest = join_sp ws')" by simp
    then consider "last (take m ?rest) = 32"
      | ws' where "\<forall>w\<in>set ws'. word_ok w" "take m ?rest = join_sp ws'"
      using tne by blast
    then show ?thesis
    proof cases
      case 1
      then show ?thesis using e tne by simp
    next
      case 2
      with tne have "ws' \<noteq> []" by auto
      then have "join_sp (w # ws') = w @ 32 # join_sp ws'" by (rule join_sp_Cons)
      moreover have "\<forall>x\<in>set (w # ws'). word_ok x" using 2 "3.prems" by simp
      ultimately have "(\<forall>x\<in>set (w # ws'). word_ok x) \<and> take n (join_sp (w # v # ws)) = join_sp (w # ws')"
        using e 2 by simp
      then show ?thesis by blast
    qed
  qed
qed

lemma lower_cp_idem [simp]: "lower_cp (lower_cp c) = lower_cp c"
  by (simp add: lower_cp_def)

lemma lower_cp_32 [simp]: "lower_cp 32 = 32"
  by (simp add: lower_cp_def)

lemma punctuation_ok: "p \<in> set punctuation \<Longrightarrow> p \<noteq> [] \<and> 32 \<notin> set p"
  by (auto simp: punctuation_def)

text \<open>Normalizing a string that is already made of clean words and is not changed by
  \<open>str.lower\<close> only truncates it.\<close>

lemma normalize_clean:
  assumes ws: "\<forall>w\<in>set ws. word_ok w"
    and lo: "str_lower L (join_sp ws) = join_sp ws"
    and pu: "\<forall>p\<in>set punctuation. \<not> sublist p (join_sp ws)"
  shows "normalize_title L (join_sp ws) = take 150 (join_sp ws)"
proof (cases "join_sp ws = []")
  case True
  then show ?thesis by simp
next
  case False
  let ?r = "join_sp ws"
  have s: "split_ws ?r = ws" using ws by (rule split_join)
  have f: "foldl (\<lambda>s char. replace char [32] s) ?r punctuation = ?r" using pu by (rule fold_absent)
  have st: "strip ?r = ?r" using ws by (rule strip_join_sp)
  show ?thesis using False by (simp add: normalize_title_def lo s f st)
qed

lemma normalize_title_form:
  "normalize_title L t = [] \<or> last (normalize_title L t) = 32
   \<or> (\<exists>ws. (\<forall>w\<in>set ws. word_ok w) \<and> normalize_title L t = join_sp ws)"
proof (cases "t = []")
  case True
  then show ?thesis by simp
next
  case False
  define Y where "Y = foldl (\<lambda>s char. replace char [32] s) (join_sp (split_ws (str_lower L t))) punctuation"
  have n: "normalize_title L t = take 150 (strip (join_sp (split_ws Y)))"
    using False by (simp add: normalize_title_def Y_def)
  have ok: "\<forall>w\<in>set (split_ws Y). word_ok w" by (simp add: split_ws_words_ok)
  then have "strip (join_sp (split_ws Y)) = join_sp (split_ws Y)" by (rule strip_join_sp)
  with n have "normalize_title L t = take 150 (join_sp (split_ws Y))" by simp
  then show ?thesis using take_join [OF ok, of 150] by simp
qed

lemma normalize_title_chars: "set (normalize_title L t) \<subseteq> insert 32 (set (str_lower L t))"
proof (cases "t = []")
  case True
  then show ?thesis by simp
next
  case False
  define X where "X = join_sp (split_ws (str_lower L t))"
  define Y where "Y = foldl (\<lambda>s char. replace char [32] s) X punctuation"
  have n: "normalize_title L t = take 150 (strip (join_sp (split_ws Y)))"
    using False by (simp add: normalize_title_def Y_def X_def)
  have ok: "\<forall>w\<in>set (split_ws Y). word_ok w" by (simp add: split_ws_words_ok)
  then have "strip (join_sp (split_ws Y)) = join_sp (split_ws Y)" by (rule strip_join_sp)
  with n have "set (normalize_title L t) \<subseteq> set (join_sp (split_ws Y))" by (simp add: set_take_subset)
  moreover have "set (join_sp (split_ws Y)) \<subseteq> insert 32 (set Y)"
    using set_join_sp [of "split_ws Y"] set_split_ws [of _ Y] by auto
  moreover have "set Y \<subseteq> insert 32 (set X)"
    unfolding Y_def by (rule set_fold) (simp add: punctuation_ok)
  moreover have "set X \<subseteq> insert 32 (set (str_lower L t))"
    unfolding X_def using set_join_sp [of "split_ws (str_lower L t)"] set_split_ws [of _ "str_lower L t"]
    by auto
  ultimately show ?thesis by blast
qed

lemma normalize_title_no_punct:
  assumes "p \<in> set punctuation"
  shows "\<not> sublist p (normalize_title L t)"
proof (cases "t = []")
  case True
  then show ?thesis using punctuation_ok [OF assms] by simp
next
  case False
  define Y where "Y = foldl (\<lambda>s char. replace char [32] s) (join_sp (split_ws (str_lower L t))) punctuation"
  have n: "normalize_title L t = take 150 (strip (join_sp (split_ws Y)))"
    using False by (simp add: normalize_title_def Y_def)
  have ok: "\<forall>w\<in>set (split_ws Y). word_ok w" by (simp add: split_ws_words_ok)
  then have "strip (join_sp (split_ws Y)) = join_sp (split_ws Y)" by (rule strip_join_sp)
  with n have n': "normalize_title L t = take 150 (join_sp (split_ws Y))" by simp
  have p: "p \<noteq> []" "32 \<notin> set p" using punctuation_ok [OF assms] by auto
  have nY: "\<not> sublist p Y" unfolding Y_def using assms by (intro fold_removes) (auto simp: punctuation_ok)
  show ?thesis
  proof
    assume "sublist p (normalize_title L t)"
    then have "sublist p (join_sp (split_ws Y))"
      unfolding n' using sublist_take sublist_order.order_trans by blast
    then obtain w where "w \<in> set (split_ws Y)" "sublist p w" using sublist_join p by blast
    then have "sublist p Y" using split_ws_sublist sublist_order.order_trans by blast
    with nY show False by simp
  qed
qed

lemma length_normalize_title: "length (normalize_title L t) \<le> 150"
  by (simp add: normalize_title_def Let_def)

lemma lower_stable_latin1: "lower_stable latin1"
proof -
  have "map lower_cp s = s" if "set s \<subseteq> insert 32 (lower_cp ` set t)" for s t
  proof (rule map_idI)
    fix c assume "c \<in> set s"
    with that have "c = 32 \<or> c \<in> lower_cp ` set t" by auto
    then show "lower_cp c = c" by auto
  qed
  then show ?thesis by (simp add: lower_stable_def)
qed

text \<open>
  C5, as the code has it: the cut to 150 characters comes after the trimming, so a
  normalized title can end in a space. Whenever it does not, normalizing it again returns
  it unchanged; this uses of \<open>str.lower\<close> only that it leaves alone the code points it has
  produced.
\<close>

theorem normalize_title_idempotent_when_no_trailing_space:
  assumes "lower_stable L"
    and "normalize_title L t \<noteq> [] \<longrightarrow> last (normalize_title L t) \<noteq> 32"
  shows "normalize_title L (normalize_title L t) = normalize_title L t"
proof (cases "normalize_title L t = []")
  case True
  then show ?thesis by simp
next
  case False
  with assms(2) normalize_title_form [of L t] obtain ws
    where ws: "\<forall>w\<in>set ws. word_ok w" and e: "normalize_title L t = join_sp ws" by blast
  have "str_lower L (normalize_title L t) = normalize_title L t"
    using assms(1) normalize_title_chars [of L t] by (simp add: lower_stable_def)
  then have "normalize_title L (join_sp ws) = take 150 (join_sp ws)"
    using ws normalize_title_no_punct [of _ L t] unfolding e
    by (intro normalize_clean) auto
  then show ?thesis using length_normalize_title [of L t] unfolding e by simp
qed

theorem normalize_title_idempotent_when_no_trailing_space_witness:
  "lower_stable latin1 \<and>
   normalize_title latin1 [65, 45, 98] \<noteq> [] \<and> last (normalize_title latin1 [65, 45, 98]) \<noteq> 32 \<and>
   normalize_title latin1 (normalize_title latin1 [65, 45, 98]) = normalize_title latin1 [65, 45, 98]"
proof -
  have n: "normalize_title latin1 [65, 45, 98] = [97, 32, 98]"
    by (simp add: normalize_title_def lower_cp_def split_ws_def is_space_def
        punctuation_def strip_def)
  show ?thesis
    using normalize_title_idempotent_when_no_trailing_space [OF lower_stable_latin1, of "[65, 45, 98]"]
      lower_stable_latin1
    by (simp add: n)
qed

text \<open>
  C5 as stated fails: a title of 149 letters, a space and one more letter is cut after the
  space, and the second normalization removes that space.
\<close>

lemma no_punct_in_letters:
  assumes "set s \<subseteq> {97, 32, 98}" "p \<in> set punctuation"
  shows "\<not> sublist p s"
proof
  assume "sublist p s"
  then have "set p \<subseteq> {97, 32, 98}" using assms(1) set_mono_sublist by blast
  with assms(2) show False by (auto simp: punctuation_def)
qed

theorem normalize_title_not_idempotent:
  "normalize_title latin1 (normalize_title latin1 (replicate 149 97 @ [32, 98]))
     \<noteq> normalize_title latin1 (replicate 149 97 @ [32, 98])"
proof -
  let ?w = "replicate 149 (97::nat)"
  have w: "word_ok ?w" by (simp add: word_ok_def is_space_def)
  have b: "word_ok [98]" by (simp add: word_ok_def is_space_def)
  have j: "join_sp [?w, [98]] = ?w @ [32, 98]" by simp
  have "normalize_title latin1 (join_sp [?w, [98]]) = take 150 (join_sp [?w, [98]])"
  proof (rule normalize_clean)
    show "\<forall>x\<in>set [?w, [98]]. word_ok x" using w b by simp
    show "str_lower latin1 (join_sp [?w, [98]]) = join_sp [?w, [98]]" by (simp add: lower_cp_def)
    show "\<forall>p\<in>set punctuation. \<not> sublist p (join_sp [?w, [98]])"
      by (intro ballI no_punct_in_letters) auto
  qed
  then have first: "normalize_title latin1 (?w @ [32, 98]) = ?w @ [32]" by simp
  have l: "str_lower latin1 (?w @ [32]) = ?w @ [32]" by (simp add: lower_cp_def)
  have s: "split_ws (?w @ [32]) = [?w]"
    using split_ws_word_sp [OF w, of 32 "[]"] by (simp add: split_ws_def)
  have f: "foldl (\<lambda>s char. replace char [32] s) ?w punctuation = ?w"
    by (intro fold_absent ballI no_punct_in_letters) auto
  have st: "strip ?w = ?w" using strip_join_sp [of "[?w]"] w by simp
  have second: "normalize_title latin1 (?w @ [32]) = ?w"
    using l by (simp add: normalize_title_def lower_cp_def s f split_ws_word [OF w] st)
  show ?thesis by (simp add: first second)
qed


section \<open>Loops\<close>

lemma rbind_eq_Inr: "rbind m f = Inr y \<longleftrightarrow> (\<exists>x. m = Inr x \<and> f x = Inr y)"
  by (cases m) (auto simp: rbind_def)

lemma foldM_append: "foldM f (xs @ ys) s = rbind (foldM f xs s) (foldM f ys)"
  by (induction xs arbitrary: s) (auto simp: rbind_def split: sum.splits)


lemma map_of_dict_set: "map_of (dict_set k v d) = (map_of d)(k \<mapsto> v)"
  by (induction k v d rule: dict_set.induct) (auto simp: fun_eq_iff)


section \<open>Sorting keeps the entries\<close>

lemma set_py_insort: "py_insort x ys = Inr r \<Longrightarrow> set r = insert x (set ys)"
proof (induction ys arbitrary: r)
  case Nil
  then show ?case by auto
next
  case (Cons y ys)
  from Cons.prems obtain b where b: "key_lt (sort_key y) (sort_key x) = Inr b"
    and r: "(if b then rbind (py_insort x ys) (\<lambda>r. Inr (y # r)) else Inr (x # y # ys)) = Inr r"
    by (auto simp: rbind_eq_Inr)
  show ?case
  proof (cases b)
    case True
    with r obtain r' where "py_insort x ys = Inr r'" "r = y # r'" by (auto simp: rbind_eq_Inr)
    then show ?thesis using Cons.IH by auto
  next
    case False
    with r show ?thesis by auto
  qed
qed

lemma set_py_sort: "py_sort xs = Inr ys \<Longrightarrow> set ys = set xs"
proof (induction xs arbitrary: ys)
  case Nil
  then show ?case by simp
next
  case (Cons x xs)
  then obtain r where "py_sort xs = Inr r" "py_insort x r = Inr ys" by (auto simp: rbind_eq_Inr)
  then show ?case using Cons.IH set_py_insort by fastforce
qed

section \<open>Seed exclusion\<close>

lemma key_truthyE: "key_truthy k \<Longrightarrow> (\<And>s. k = Some s \<Longrightarrow> s \<noteq> [] \<Longrightarrow> P) \<Longrightarrow> P"
  by (cases k) auto

lemma seed_step_keys:
  "seed_step L p (S, B) = Inr (S', B') \<Longrightarrow> S' = S \<union> set_option (seed_key_of L p)"
  by (auto simp: seed_step_def seed_key_of_def rbind_eq_Inr split: option.splits if_splits
      elim: key_truthyE)

lemma seed_fold_keys:
  "foldM (seed_step L) papers (S, B) = Inr (S', B') \<Longrightarrow> S' = S \<union> seed_key_set L papers"
proof (induction papers arbitrary: S B)
  case Nil
  then show ?case by (simp add: seed_key_set_def List.map_filter_simps)
next
  case (Cons p ps)
  from Cons.prems obtain S1 B1 where 1: "seed_step L p (S, B) = Inr (S1, B1)"
    and 2: "foldM (seed_step L) ps (S1, B1) = Inr (S', B')"
    by (auto simp: rbind_eq_Inr)
  from 1 have "S1 = S \<union> set_option (seed_key_of L p)" by (rule seed_step_keys)
  moreover from 2 have "S' = S1 \<union> seed_key_set L ps" by (rule Cons.IH)
  ultimately show ?case
    by (cases "seed_key_of L p") (auto simp: seed_key_set_def List.map_filter_simps)
qed

lemma filter_step_excludes:
  "filter_step S k item acc = Inr out \<Longrightarrow> e \<in> set out
     \<Longrightarrow> e \<in> set acc \<or> (e_key e = fst item \<and> e_key e \<notin> S \<and> \<not> is_in_seed_set e)"
  by (cases item) (auto simp: filter_step_def split: if_splits option.splits)

lemma filter_fold_excludes:
  assumes "foldM (filter_step S k) idx acc = Inr out"
  shows "\<forall>e\<in>set out. e \<in> set acc \<or> (e_key e \<notin> S \<and> \<not> is_in_seed_set e)"
  using assms
proof (induction idx arbitrary: acc)
  case Nil
  then show ?case by simp
next
  case (Cons item idx)
  from Cons.prems obtain a1 where 1: "filter_step S k item acc = Inr a1"
    and 2: "foldM (filter_step S k) idx a1 = Inr out"
    by (auto simp: rbind_eq_Inr)
  show ?case using Cons.IH [OF 2] filter_step_excludes [OF 1] by blast
qed

text \<open>
  C4: whenever the analysis returns, no entry of the cited-result list and no entry of the
  citing-result list has a key of the seed key set, for every document and all thresholds;
  the flag \<open>is_in_seed_set\<close> of every entry is false.
\<close>

theorem seed_exclusion:
  assumes "analyze_citations L papers k_cited k_citing = Inr (cited, citing)"
    and "e \<in> set cited \<union> set citing"
  shows "e_key e \<notin> seed_key_set L papers \<and> \<not> is_in_seed_set e"
proof -
  from assms(1) obtain S B ri c0 ci g0
    where s: "foldM (seed_step L) papers ({}, []) = Inr (S, B)"
      and f1: "foldM (filter_step S k_cited) ri [] = Inr c0"
      and s1: "py_sort c0 = Inr cited"
      and f2: "foldM (filter_step S k_citing) ci [] = Inr g0"
      and s2: "py_sort g0 = Inr citing"
    by (auto simp: analyze_citations_def rbind_eq_Inr split: prod.splits)
  have S: "S = seed_key_set L papers" using seed_fold_keys [OF s] by simp
  have c: "\<forall>e\<in>set c0. e_key e \<notin> S \<and> \<not> is_in_seed_set e"
    using filter_fold_excludes [OF f1] by simp
  have g: "\<forall>e\<in>set g0. e_key e \<notin> S \<and> \<not> is_in_seed_set e"
    using filter_fold_excludes [OF f2] by simp
  have "e \<in> set c0 \<or> e \<in> set g0" using assms(2) set_py_sort [OF s1] set_py_sort [OF s2] by simp
  then show ?thesis using c g unfolding S by blast
qed


section \<open>Evaluation on the example documents\<close>

lemma lit_eq_iff [simp]: "lit a = lit b \<longleftrightarrow> a = b"
  by (simp add: lit_def inj_map_eq_map inj_on_def)

lemma normalize_title_letter: "97 \<le> c \<Longrightarrow> c \<le> 122 \<Longrightarrow> normalize_title latin1 [c] = [c]"
proof -
  assume c: "97 \<le> c" "c \<le> 122"
  have "normalize_title latin1 (join_sp [[c]]) = take 150 (join_sp [[c]])"
  proof (rule normalize_clean)
    show "\<forall>w\<in>set [[c]]. word_ok w" using c by (simp add: word_ok_def is_space_def)
    show "str_lower latin1 (join_sp [[c]]) = join_sp [[c]]" using c by (simp add: lower_cp_def)
    show "\<forall>p\<in>set punctuation. \<not> sublist p (join_sp [[c]])"
    proof
      fix p assume p: "p \<in> set punctuation"
      show "\<not> sublist p (join_sp [[c]])"
      proof
        assume "sublist p (join_sp [[c]])"
        then have "set p \<subseteq> {c}" using set_mono_sublist by fastforce
        with p c show False by (auto simp: punctuation_def)
      qed
    qed
  qed
  then show ?thesis by simp
qed

lemma key_titled: "97 \<le> c \<Longrightarrow> c \<le> 122 \<Longrightarrow> get_paper_key latin1 (titled c) = Inr (Some (lit ''title:'' @ [c]))"
  by (simp add: get_paper_key_def titled_def get_or_def normalize_title_val_def normalize_title_letter)

lemma viz_key_titled: "97 \<le> c \<Longrightarrow> c \<le> 122 \<Longrightarrow> viz_get_paper_key latin1 (titled c) = Inr (Some (lit ''title:'' @ [c]))"
  by (simp add: viz_get_paper_key_def titled_def get_or_def lower_cp_def)

lemma seed_sel [simp]:
  "metadata (seed c refs citers) = Some (titled c)"
  "input_doi (seed c refs citers) = Some (JStr [c])"
  "references (seed c refs citers) = refs"
  "cited_by (seed c refs citers) = citers"
  by (simp_all add: seed_def)

lemma titled_simps [simp]:
  "titled c \<noteq> []"
  "get_or (titled c) ''title'' d = JStr [c]"
  "k \<noteq> ''title'' \<Longrightarrow> get_or (titled c) k d = d"
  by (simp_all add: titled_def get_or_def)

lemma label_seed: "get_seed_paper_label (seed c refs citers) = Inr (JStr [c])"
  by (simp add: get_seed_paper_label_def)

lemmas eval_analysis =
  analyze_citations_def seed_step_def index_paper_def index_ref_def index_add_def filter_step_def
  label_seed key_titled entry_of_def Let_def

lemma analysis_doc_twice:
  "analyze_citations latin1 doc_twice 2 2
     = Inr ([entry_of 120 [\<lparr>r_doi = JStr [97], r_title = JStr [97]\<rparr>, \<lparr>r_doi = JStr [97], r_title = JStr [97]\<rparr>]], [])"
  by (simp add: eval_analysis doc_twice_def)

lemma analysis_doc_self:
  "analyze_citations latin1 doc_self 1 1
     = Inr ([entry_of 120 [\<lparr>r_doi = JStr [97], r_title = JStr [97]\<rparr>]], [])"
  by (simp add: eval_analysis doc_self_def)

lemma seed_key_set_doc_self: "seed_key_set latin1 doc_self = {lit ''title:'' @ [97]}"
  by (simp add: seed_key_set_def doc_self_def seed_key_of_def List.map_filter_simps key_titled)

lemmas eval_graph =
  analyze_for_graph_def viz_seed_step_def viz_paper_step_def viz_ref_step_def viz_citing_step_def
  viz_index_add_def viz_filter_step_def viz_key_titled node_of_def Let_def


lemma graph_doc_twice_1:
  "analyze_for_graph latin1 doc_twice 1 1
     = Inr \<lparr>g_seed_papers = [(lit ''title:'' @ [97], node_of 97 (Some (JStr [97])) None)],
            g_cited_papers = [(lit ''title:'' @ [120], node_of 120 None (Some 1))],
            g_citing_papers = [],
            g_edges = [(lit ''title:'' @ [97], lit ''title:'' @ [120], lit ''cites'')]\<rparr>"
  by (simp add: eval_graph doc_twice_def)

text \<open>The seed paper \<open>a\<close> of \<open>doc_self\<close> lists itself; only \<open>x\<close> is reported.\<close>

theorem seed_exclusion_witness:
  "analyze_citations latin1 doc_self 1 1
     = Inr ([entry_of 120 [\<lparr>r_doi = JStr [97], r_title = JStr [97]\<rparr>]], []) \<and>
   e_key (entry_of 120 [\<lparr>r_doi = JStr [97], r_title = JStr [97]\<rparr>]) \<notin> seed_key_set latin1 doc_self \<and>
   \<not> is_in_seed_set (entry_of 120 [\<lparr>r_doi = JStr [97], r_title = JStr [97]\<rparr>])"
  using seed_exclusion [OF analysis_doc_self, of "entry_of 120 [\<lparr>r_doi = JStr [97], r_title = JStr [97]\<rparr>]"]
    analysis_doc_self
  by simp

text \<open>
  C1 on the code: one seed paper lists the reference \<open>x\<close> twice. The analysis reports
  \<open>c_in = 2\<close> for \<open>x\<close> and keeps it at the threshold 2, although the seed key set has one
  member; the graph builder counts the seed once (\<open>graph_doc_twice_1\<close>).
\<close>

theorem analysis_counts_list_entries:
  "analyze_citations latin1 doc_twice 2 2
     = Inr ([entry_of 120 [\<lparr>r_doi = JStr [97], r_title = JStr [97]\<rparr>, \<lparr>r_doi = JStr [97], r_title = JStr [97]\<rparr>]], []) \<and>
   e_count (entry_of 120 [\<lparr>r_doi = JStr [97], r_title = JStr [97]\<rparr>, \<lparr>r_doi = JStr [97], r_title = JStr [97]\<rparr>]) = 2 \<and>
   card (seed_key_set latin1 doc_twice) = 1"
  using analysis_doc_twice
  by (simp add: entry_of_def seed_key_set_def doc_twice_def seed_key_of_def List.map_filter_simps key_titled)

section \<open>Edges of the graph\<close>

lemma viz_ref_step_cites:
  "viz_ref_step L sk r st = Inr st' \<Longrightarrow> edges_cites st \<Longrightarrow> edges_cites st'"
  by (cases st) (auto simp: viz_ref_step_def edges_cites_def rbind_eq_Inr split: if_splits)

lemma viz_citing_step_cites:
  "viz_citing_step L sk r st = Inr st' \<Longrightarrow> edges_cites st \<Longrightarrow> edges_cites st'"
  by (cases st) (auto simp: viz_citing_step_def edges_cites_def rbind_eq_Inr split: if_splits)

lemma viz_ref_fold_cites:
  "foldM (viz_ref_step L sk) rs st = Inr st' \<Longrightarrow> edges_cites st \<Longrightarrow> edges_cites st'"
proof (induction rs arbitrary: st)
  case Nil
  then show ?case by simp
next
  case (Cons r rs)
  from Cons.prems(1) obtain s1 where "viz_ref_step L sk r st = Inr s1"
    and "foldM (viz_ref_step L sk) rs s1 = Inr st'"
    by (auto simp: rbind_eq_Inr)
  then show ?case using Cons.IH Cons.prems(2) viz_ref_step_cites by blast
qed

lemma viz_citing_fold_cites:
  "foldM (viz_citing_step L sk) rs st = Inr st' \<Longrightarrow> edges_cites st \<Longrightarrow> edges_cites st'"
proof (induction rs arbitrary: st)
  case Nil
  then show ?case by simp
next
  case (Cons r rs)
  from Cons.prems(1) obtain s1 where "viz_citing_step L sk r st = Inr s1"
    and "foldM (viz_citing_step L sk) rs s1 = Inr st'"
    by (auto simp: rbind_eq_Inr)
  then show ?case using Cons.IH Cons.prems(2) viz_citing_step_cites by blast
qed

lemma viz_paper_step_cites:
  "viz_paper_step L p st = Inr st' \<Longrightarrow> edges_cites st \<Longrightarrow> edges_cites st'"
  by (auto simp: viz_paper_step_def rbind_eq_Inr split: if_splits
      dest: viz_ref_fold_cites viz_citing_fold_cites)

lemma viz_paper_fold_cites:
  "foldM (viz_paper_step L) ps st = Inr st' \<Longrightarrow> edges_cites st \<Longrightarrow> edges_cites st'"
proof (induction ps arbitrary: st)
  case Nil
  then show ?case by simp
next
  case (Cons p ps)
  from Cons.prems(1) obtain s1 where "viz_paper_step L p st = Inr s1"
    and "foldM (viz_paper_step L) ps s1 = Inr st'"
    by (auto simp: rbind_eq_Inr)
  then show ?case using Cons.IH Cons.prems(2) viz_paper_step_cites by blast
qed

lemma analyze_for_graph_alt:
  "analyze_for_graph L papers k_cited k_citing =
     rbind (foldM (viz_seed_step L) papers []) (\<lambda>sp.
     rbind (foldM (viz_paper_step L) papers ([], [], [])) (\<lambda>st.
     rbind (foldM (viz_filter_step sp k_cited) (fst st) []) (\<lambda>cp.
     rbind (foldM (viz_filter_step sp k_citing) (fst (snd st)) []) (\<lambda>gp.
     Inr \<lparr>g_seed_papers = sp, g_cited_papers = cp, g_citing_papers = gp,
          g_edges = remdups (filter (\<lambda>e.
                 fst e \<in> fst ` set sp \<union> fst ` set cp \<union> fst ` set gp
                 \<and> fst (snd e) \<in> fst ` set sp \<union> fst ` set cp \<union> fst ` set gp) (snd (snd st)))\<rparr>))))"
  by (simp add: analyze_for_graph_def Let_def split_def)

lemma analyze_for_graph_parts:
  assumes "analyze_for_graph L papers k_cited k_citing = Inr g"
  obtains sp ri ci es cp gp
  where "foldM (viz_seed_step L) papers [] = Inr sp"
    and "foldM (viz_paper_step L) papers ([], [], []) = Inr (ri, ci, es)"
    and "foldM (viz_filter_step sp k_cited) ri [] = Inr cp"
    and "foldM (viz_filter_step sp k_citing) ci [] = Inr gp"
    and "g = \<lparr>g_seed_papers = sp, g_cited_papers = cp, g_citing_papers = gp,
              g_edges = remdups (filter (\<lambda>e.
                 fst e \<in> fst ` set sp \<union> fst ` set cp \<union> fst ` set gp
                 \<and> fst (snd e) \<in> fst ` set sp \<union> fst ` set cp \<union> fst ` set gp) es)\<rparr>"
proof -
  from assms obtain sp st cp gp
    where 1: "foldM (viz_seed_step L) papers [] = Inr sp"
      and 2: "foldM (viz_paper_step L) papers ([], [], []) = Inr st"
      and 3: "foldM (viz_filter_step sp k_cited) (fst st) [] = Inr cp"
      and 4: "foldM (viz_filter_step sp k_citing) (fst (snd st)) [] = Inr gp"
      and 5: "g = \<lparr>g_seed_papers = sp, g_cited_papers = cp, g_citing_papers = gp,
              g_edges = remdups (filter (\<lambda>e.
                 fst e \<in> fst ` set sp \<union> fst ` set cp \<union> fst ` set gp
                 \<and> fst (snd e) \<in> fst ` set sp \<union> fst ` set cp \<union> fst ` set gp) (snd (snd st)))\<rparr>"
    unfolding analyze_for_graph_alt rbind_eq_Inr by blast
  show thesis
    using that [of sp "fst st" "fst (snd st)" "snd (snd st)" cp gp] 1 2 3 4 5 by simp
qed

text \<open>
  C9: whenever the graph is built, both ends of every edge are keys of the three node
  partitions, and no two edges have the same source and target.
\<close>

theorem graph_edges_ok:
  assumes "analyze_for_graph L papers k_cited k_citing = Inr g"
  shows "(\<forall>e\<in>set (g_edges g). fst e \<in> node_keys g \<and> fst (snd e) \<in> node_keys g) \<and>
         distinct (map (\<lambda>e. (fst e, fst (snd e))) (g_edges g))"
proof -
  from assms obtain sp ri ci es cp gp
    where loop: "foldM (viz_paper_step L) papers ([], [], []) = Inr (ri, ci, es)"
      and g: "g = \<lparr>g_seed_papers = sp, g_cited_papers = cp, g_citing_papers = gp,
              g_edges = remdups (filter (\<lambda>e.
                 fst e \<in> fst ` set sp \<union> fst ` set cp \<union> fst ` set gp
                 \<and> fst (snd e) \<in> fst ` set sp \<union> fst ` set cp \<union> fst ` set gp) es)\<rparr>"
    by (rule analyze_for_graph_parts)
  have ends: "\<forall>e\<in>set (g_edges g). fst e \<in> node_keys g \<and> fst (snd e) \<in> node_keys g"
    by (auto simp: g node_keys_def)
  have "edges_cites (ri, ci, es)"
    using viz_paper_fold_cites [OF loop] by (simp add: edges_cites_def)
  then have tag: "\<forall>e\<in>set (g_edges g). snd (snd e) = lit ''cites''"
    by (auto simp: g edges_cites_def)
  have "inj_on (\<lambda>e. (fst e, fst (snd e))) (set (g_edges g))"
  proof (rule inj_onI)
    fix a b :: edge
    assume "a \<in> set (g_edges g)" "b \<in> set (g_edges g)"
      and "(fst a, fst (snd a)) = (fst b, fst (snd b))"
    with tag show "a = b" by (metis prod.collapse prod.inject)
  qed
  moreover have "distinct (g_edges g)" by (simp add: g)
  ultimately have "distinct (map (\<lambda>e. (fst e, fst (snd e))) (g_edges g))"
    by (simp add: distinct_map)
  with ends show ?thesis by simp
qed

lemma graph_doc_edges:
  "analyze_for_graph latin1 doc_edges 1 2
     = Inr \<lparr>g_seed_papers = [(lit ''title:'' @ [97], node_of 97 (Some (JStr [97])) None)],
            g_cited_papers = [(lit ''title:'' @ [120], node_of 120 None (Some 1))],
            g_citing_papers = [],
            g_edges = [(lit ''title:'' @ [97], lit ''title:'' @ [120], lit ''cites'')]\<rparr>"
  by (simp add: eval_graph doc_edges_def)

text \<open>In \<open>doc_edges\<close> the edge to \<open>x\<close> is built twice and kept once, and the edge from \<open>c\<close> is
  dropped with its node.\<close>

theorem graph_edges_ok_witness:
  "analyze_for_graph latin1 doc_edges 1 2
     = Inr \<lparr>g_seed_papers = [(lit ''title:'' @ [97], node_of 97 (Some (JStr [97])) None)],
            g_cited_papers = [(lit ''title:'' @ [120], node_of 120 None (Some 1))],
            g_citing_papers = [],
            g_edges = [(lit ''title:'' @ [97], lit ''title:'' @ [120], lit ''cites'')]\<rparr> \<and>
   lit ''title:'' @ [97] \<in> node_keys \<lparr>g_seed_papers = [(lit ''title:'' @ [97], node_of 97 (Some (JStr [97])) None)],
            g_cited_papers = [(lit ''title:'' @ [120], node_of 120 None (Some 1))],
            g_citing_papers = [],
            g_edges = [(lit ''title:'' @ [97], lit ''title:'' @ [120], lit ''cites'')]\<rparr> \<and>
   lit ''title:'' @ [120] \<in> node_keys \<lparr>g_seed_papers = [(lit ''title:'' @ [97], node_of 97 (Some (JStr [97])) None)],
            g_cited_papers = [(lit ''title:'' @ [120], node_of 120 None (Some 1))],
            g_citing_papers = [],
            g_edges = [(lit ''title:'' @ [97], lit ''title:'' @ [120], lit ''cites'')]\<rparr>"
  using graph_edges_ok [OF graph_doc_edges] graph_doc_edges by simp

section \<open>What one seed entry adds to an index\<close>

lemma occs_index_add:
  "occs_of (index_add k r occ idx) k' = occs_of idx k' @ (if k' = k then [occ] else [])"
  by (auto simp: occs_of_def index_add_def map_of_dict_set split: option.splits prod.splits)

lemma index_ref_result:
  "index_ref L occ r idx = Inr idx'
     \<Longrightarrow> idx' = (case ref_key L r of None \<Rightarrow> idx | Some k \<Rightarrow> index_add k r occ idx)"
proof -
  assume a: "index_ref L occ r idx = Inr idx'"
  then obtain x where x: "get_paper_key L r = Inr x"
    and res: "(if \<not> key_truthy x then idx else index_add (the x) r occ idx) = idx'"
    by (auto simp: index_ref_def rbind_eq_Inr split: if_splits)
  show ?thesis
  proof (cases "key_truthy x")
    case True
    then obtain s where "x = Some s" by (cases x) auto
    with True x res show ?thesis by (simp add: ref_key_def)
  next
    case False
    with x res show ?thesis by (simp add: ref_key_def)
  qed
qed

lemma index_ref_occs:
  "index_ref L occ r idx = Inr idx'
     \<Longrightarrow> occs_of idx' k = occs_of idx k @ (if ref_key L r = Some k then [occ] else [])"
  by (drule index_ref_result) (auto simp: occs_index_add split: option.splits)

lemma index_fold_occs:
  "foldM (index_ref L occ) rs idx = Inr idx'
     \<Longrightarrow> occs_of idx' k = occs_of idx k @ replicate (length (refs_with L k rs)) occ"
proof (induction rs arbitrary: idx)
  case Nil
  then show ?case by (simp add: refs_with_def)
next
  case (Cons r rs)
  from Cons.prems obtain i1 where 1: "index_ref L occ r idx = Inr i1"
    and 2: "foldM (index_ref L occ) rs i1 = Inr idx'"
    by (auto simp: rbind_eq_Inr)
  show ?case
    using index_ref_occs [OF 1, of k] Cons.IH [OF 2]
    by (simp add: refs_with_def replicate_append_same)
qed

lemma index_ref_returns:
  "get_paper_key L r = Inr k \<Longrightarrow> \<exists>idx'. index_ref L occ r idx = Inr idx'"
  by (simp add: index_ref_def)

lemma index_fold_returns:
  "\<forall>r\<in>set rs. \<exists>k. get_paper_key L r = Inr k \<Longrightarrow> \<exists>idx'. foldM (index_ref L occ) rs idx = Inr idx'"
proof (induction rs arbitrary: idx)
  case Nil
  then show ?case by simp
next
  case (Cons r rs)
  then obtain k where "get_paper_key L r = Inr k" by auto
  then obtain i1 where "index_ref L occ r idx = Inr i1" using index_ref_returns by blast
  moreover obtain i2 where "foldM (index_ref L occ) rs i1 = Inr i2" using Cons by fastforce
  ultimately show ?case by simp
qed

text \<open>The label of a seed entry whose metadata resolves to no key: its title is false or a
  string, so the label is computed.\<close>

lemma keyless_title_not_bad:
  assumes "get_paper_key L md = Inr None"
  shows "\<not> bad (get_or md ''title'' JNull)"
proof
  assume "bad (get_or md ''title'' JNull)"
  then have "first_probe (probes L md) = Inl AttributeError"
    by (simp add: probes_unfold probe_bad)
  with assms show False by (simp add: get_paper_key_probes)
qed

lemma label_returns:
  assumes "\<not> bad (get_or md ''title'' JNull)" "metadata p = Some md"
  shows "\<exists>l. get_seed_paper_label p = Inr l"
proof (cases "get_or md ''title'' JNull")
  case (JStr s)
  then have "get_or md ''title'' (JStr (lit ''Unknown'')) = JStr s"
    by (auto simp: get_or_def split: option.splits)
  then show ?thesis using assms(2)
    by (cases "md = []") (auto simp: get_seed_paper_label_def Let_def get_or_def)
next
  case JNull
  then have "get_or md ''title'' (JStr (lit ''Unknown'')) = JNull
      \<or> get_or md ''title'' (JStr (lit ''Unknown'')) = JStr (lit ''Unknown'')"
    by (auto simp: get_or_def split: option.splits)
  then show ?thesis using assms(2)
    by (cases "md = []") (auto simp: get_seed_paper_label_def Let_def get_or_def lit_def)
next
  case (JBool b)
  with assms(1) have "\<not> b" by (simp add: bad_def)
  with JBool have "get_or md ''title'' (JStr (lit ''Unknown'')) = JBool False"
    by (auto simp: get_or_def split: option.splits)
  then show ?thesis using assms(2)
    by (cases "md = []") (auto simp: get_seed_paper_label_def Let_def get_or_def lit_def)
next
  case (JNum n)
  with assms(1) have "n = 0" by (simp add: bad_def)
  with JNum have "get_or md ''title'' (JStr (lit ''Unknown'')) = JNum 0"
    by (auto simp: get_or_def split: option.splits)
  then show ?thesis using assms(2)
    by (cases "md = []") (auto simp: get_seed_paper_label_def Let_def get_or_def lit_def)
next
  case (JStrs xs)
  with assms(1) have "xs = []" by (simp add: bad_def)
  with JStrs have "get_or md ''title'' (JStr (lit ''Unknown'')) = JStrs []"
    by (auto simp: get_or_def split: option.splits)
  then show ?thesis using assms(2)
    by (cases "md = []") (auto simp: get_seed_paper_label_def Let_def get_or_def lit_def)
qed

text \<open>
  C10: a seed entry whose metadata is present and resolves to no key leaves the seed key
  set as it is, and the loop over its relation list (\<open>references\<close> or \<open>cited_by\<close>) is
  still run: when no record of the list raises, the loop returns, and every key \<open>k\<close> gains
  one occurrence for each record of the list that resolves to \<open>k\<close>, each made of the
  entry's \<open>input_doi\<close> and its label.
\<close>

theorem keyless_seed_still_indexed:
  assumes "metadata p = Some md" "md \<noteq> []" "get_paper_key L md = Inr None"
    and "\<forall>r\<in>set (rel p). \<exists>k. get_paper_key L r = Inr k"
  shows "seed_step L p st = Inr st \<and> seed_key_of L p = None \<and>
         (\<exists>l idx'. get_seed_paper_label p = Inr l \<and> index_paper L rel p idx = Inr idx' \<and>
            (\<forall>k. occs_of idx' k = occs_of idx k @ replicate (length (refs_with L k (rel p))) (seed_occ p l)))"
proof -
  have s: "seed_step L p st = Inr st"
    using assms(1,2,3) by (cases st) (simp add: seed_step_def)
  have k: "seed_key_of L p = None"
    using assms(1,2,3) by (simp add: seed_key_of_def)
  obtain l where l: "get_seed_paper_label p = Inr l"
    using label_returns [OF keyless_title_not_bad [OF assms(3)] assms(1)] by blast
  obtain idx' where f: "foldM (index_ref L (seed_occ p l)) (rel p) idx = Inr idx'"
    using index_fold_returns [OF assms(4)] by blast
  have i: "index_paper L rel p idx = Inr idx'"
    using assms(1,2) l f by (simp add: index_paper_def seed_occ_def)
  have "\<forall>k. occs_of idx' k = occs_of idx k @ replicate (length (refs_with L k (rel p))) (seed_occ p l)"
    using index_fold_occs [OF f] by simp
  with s k l i show ?thesis by blast
qed


lemma keyless_sel:
  "metadata keyless = Some [(lit ''venue'', JStr [118])]"
  "input_doi keyless = Some (JStr [100])"
  "references keyless = [titled 120, titled 120]"
  "cited_by keyless = []"
  by (simp_all add: keyless_def)

lemma key_keyless: "get_paper_key latin1 [(lit ''venue'', JStr [118])] = Inr None"
  by (simp add: get_paper_key_def get_or_def normalize_title_val_def extract_arxiv_id_from_doi_def)

text \<open>The entry \<open>keyless\<close>: its metadata gives no key, its label is \<open>Unknown\<close>, and \<open>x\<close> gets
  two occurrences.\<close>

theorem keyless_seed_still_indexed_witness:
  "metadata keyless = Some [(lit ''venue'', JStr [118])] \<and>
   get_paper_key latin1 [(lit ''venue'', JStr [118])] = Inr None \<and>
   seed_step latin1 keyless ({}, []) = Inr ({}, []) \<and>
   seed_key_of latin1 keyless = None \<and>
   get_seed_paper_label keyless = Inr (JStr (lit ''Unknown'')) \<and>
   index_paper latin1 references keyless []
     = Inr [(lit ''title:'' @ [120],
             (Some (titled 120), [\<lparr>r_doi = JStr [100], r_title = JStr (lit ''Unknown'')\<rparr>,
                                  \<lparr>r_doi = JStr [100], r_title = JStr (lit ''Unknown'')\<rparr>]))]"
proof -
  have m: "metadata keyless = Some [(lit ''venue'', JStr [118])]" by (simp add: keyless_def)
  have r: "\<forall>r\<in>set (references keyless). \<exists>k. get_paper_key latin1 r = Inr k"
    by (simp add: keyless_def key_titled)
  have l: "get_seed_paper_label keyless = Inr (JStr (lit ''Unknown''))"
    by (simp add: get_seed_paper_label_def keyless_def get_or_def lit_def)
  have i: "index_paper latin1 references keyless []
     = Inr [(lit ''title:'' @ [120],
             (Some (titled 120), [\<lparr>r_doi = JStr [100], r_title = JStr (lit ''Unknown'')\<rparr>,
                                  \<lparr>r_doi = JStr [100], r_title = JStr (lit ''Unknown'')\<rparr>]))]"
    by (simp add: index_paper_def l index_ref_def index_add_def key_titled keyless_sel Let_def)
  show ?thesis
    using keyless_seed_still_indexed [where p = keyless and L = latin1 and rel = references
        and st = "({}, [])" and idx = "[]", OF m _ key_keyless r] m l i key_keyless
    by simp
qed

section \<open>The index of the analysis\<close>












section \<open>The indices of the graph builder\<close>

















section \<open>Where the two entry points agree\<close>


















end
